theory Spec2Isabelle
  imports Main "HOL-Library.AList" "HOL-Library.Sublist" "HOL-Library.Multiset"
begin

section \<open>Data model\<close>

text \<open>
  Instants are JavaScript time values: whole milliseconds since the epoch, so "one instant
  older" is one millisecond less. Item references are Spotify URIs, plain strings.
\<close>

type_synonym uri = string

text \<open>Errors are values: a rejected request of the API client, or a configuration error
  raised by the client functions themselves.\<close>

datatype error = ApiError nat | EnvNotSet string | TooManyItems | NoSuchPlaylist

subsection \<open>What the host service sends\<close>

text \<open>
  A playlist row as the API returns it: the time it was added and the track, which may be
  null. Of the track object only the URI is read by the code.
\<close>

record playlist_item =
  added_at :: int
  track :: "uri option"

text \<open>A play-history row: the track (possibly null) and the time of play (possibly absent).\<close>

record history_item =
  h_track :: "uri option"
  played_at :: "int option"

record token_data =
  access_token :: string
  expires_in :: int

subsection \<open>What the client functions return\<close>

text \<open>
  The three client records share the \<open>uri\<close> field. A source track also carries the host's
  track object in the source; the synchroniser reads only \<open>uri\<close> and \<open>addedAt\<close>, so the
  object is left out.
\<close>

record entry =
  uri :: uri

record source_track = entry +
  addedAt :: int

record mirror_track = entry +
  position :: nat

record played_track = entry +
  playedAt :: int

subsection \<open>The host and the platform, as parameters\<close>

text \<open>
  The Spotify client object, the clock, the calendar arithmetic of \<open>Date\<close> and the process
  environment are not code of this repository. They are a parameter of every function: a
  record of operations over an abstract world \<open>'w\<close>. A request either rejects (\<open>Inl\<close>) or
  resolves (\<open>Inr\<close>), and returns the world after it.

  \<open>minusOneYear\<close> is \<open>d.setFullYear(d.getFullYear() - 1)\<close> and \<open>minusFiveDays\<close> is
  \<open>d.setDate(d.getDate() - 5)\<close>, both on time values.
\<close>

record 'w api =
  dateNow :: "'w \<Rightarrow> int \<times> 'w"
  minusOneYear :: "int \<Rightarrow> int"
  minusFiveDays :: "int \<Rightarrow> int"
  SOURCE_PLAYLIST_ID :: "string option"
  MIRROR_PLAYLIST_ID :: "string option"
  refreshAccessToken :: "'w \<Rightarrow> (error + token_data) \<times> 'w"
  setAccessToken :: "string \<Rightarrow> 'w \<Rightarrow> 'w"
  getPlaylistTracks :: "string \<Rightarrow> nat \<Rightarrow> nat \<Rightarrow> 'w \<Rightarrow> (error + playlist_item list) \<times> 'w"
  addTracksToPlaylist :: "string \<Rightarrow> uri list \<Rightarrow> nat option \<Rightarrow> 'w \<Rightarrow> (error + unit) \<times> 'w"
  removeTracksFromPlaylist :: "string \<Rightarrow> uri list \<Rightarrow> 'w \<Rightarrow> (error + unit) \<times> 'w"
  getMyRecentlyPlayedTracks :: "nat \<Rightarrow> int option \<Rightarrow> 'w \<Rightarrow> (error + history_item list) \<times> 'w"

subsection \<open>Program state\<close>

text \<open>The requests issued to the host, recorded in order as each is made.\<close>

datatype call =
    CRefresh
  | CGetTracks string nat nat
  | CAdd string "uri list" "nat option"
  | CRemove string "uri list"
  | CRecentlyPlayed nat "int option"

fun isWrite :: "call \<Rightarrow> bool" where
  "isWrite (CAdd _ _ _) = True"
| "isWrite (CRemove _ _) = True"
| "isWrite _ = False"

text \<open>The lines written to the console, one constructor per \<open>console.log\<close> or
  \<open>console.error\<close> of the modelled functions.\<close>

datatype msg =
    LogTokenRefreshed int
  | ErrRefreshingToken error
  | LogMakingRequest nat
  | LogRetrievedSoFar nat
  | LogRetrievedUnique nat
  | ErrRetrievingRecentlyPlayed error
  | LogStarting
  | LogFoundSource nat
  | LogWithinLastYear nat
  | LogFoundRecentlyPlayed nat
  | LogInLockPeriod nat
  | LogFoundMirror nat
  | LogEligible nat
  | LogChangesDetected
  | LogRemovingAll
  | LogAddingNewestFirst
  | LogAdded nat nat
  | LogPlaylistUpdated
  | LogExcluded nat
  | LogNoChanges
  | LogSyncCompleted
  | ErrSyncing error

text \<open>
  The state a function runs in: the world of the host, the module variable
  \<open>tokenExpirationTime\<close>, the console and the record of requests.
\<close>

record 'w state =
  world :: 'w
  tokenExpirationTime :: int
  console :: "msg list"
  calls :: "call list"

definition consoleLog :: "msg \<Rightarrow> 'w state \<Rightarrow> 'w state" where
  "consoleLog m s = s\<lparr>console := console s @ [m]\<rparr>"

definition request :: "call \<Rightarrow> ('w \<Rightarrow> 'r \<times> 'w) \<Rightarrow> 'w state \<Rightarrow> 'r \<times> 'w state" where
  "request c f s =
     (case f (world s) of (r, w) \<Rightarrow> (r, s\<lparr>world := w, calls := calls s @ [c]\<rparr>))"

text \<open>
  An awaited computation: it may not return (\<open>None\<close>), reject (\<open>Inl\<close>) or resolve
  (\<open>Inr\<close>). \<open>andThen\<close> is sequencing by \<open>await\<close>: a rejection skips the rest.
\<close>

type_synonym ('a, 'w) outcome = "((error + 'a) \<times> 'w state) option"

definition andThen :: "('a, 'w) outcome \<Rightarrow> ('a \<Rightarrow> 'w state \<Rightarrow> ('b, 'w) outcome) \<Rightarrow> ('b, 'w) outcome" where
  "andThen m f =
     (case m of
        None \<Rightarrow> None
      | Some (Inl e, s) \<Rightarrow> Some (Inl e, s)
      | Some (Inr a, s) \<Rightarrow> f a s)"

section \<open>The playlist synchroniser: predicates\<close>

text \<open>\<open>isAddedWithinLastYear\<close>: reads the clock at each call.\<close>

definition isAddedWithinLastYear :: "'w api \<Rightarrow> int \<Rightarrow> 'w \<Rightarrow> bool \<times> 'w" where
  "isAddedWithinLastYear A addedAt' w =
     (case dateNow A w of (now, w') \<Rightarrow>
        let oneYearAgo = minusOneYear A now in (addedAt' \<ge> oneYearAgo, w'))"

definition isPlayedRecentlyWithinLockPeriod :: "'w api \<Rightarrow> int \<Rightarrow> 'w \<Rightarrow> bool \<times> 'w" where
  "isPlayedRecentlyWithinLockPeriod A playedAt' w =
     (case dateNow A w of (now, w') \<Rightarrow>
        let fiveDaysAgo = minusFiveDays A now in (playedAt' \<ge> fiveDaysAgo, w'))"

text \<open>\<open>Array.prototype.filter\<close> with a predicate that reads the world, element by element.\<close>

fun filterW :: "('a \<Rightarrow> 'w \<Rightarrow> bool \<times> 'w) \<Rightarrow> 'a list \<Rightarrow> 'w \<Rightarrow> 'a list \<times> 'w" where
  "filterW p [] w = ([], w)"
| "filterW p (x # xs) w =
     (case p x w of (b, w1) \<Rightarrow>
        case filterW p xs w1 of (ys, w2) \<Rightarrow> (if b then x # ys else ys, w2))"

section \<open>The API client\<close>

text \<open>\<open>ensureAccessToken\<close>: refreshes the access token unless it is valid for more than a
  minute; a rejected refresh is logged and raised again.\<close>

definition ensureAccessToken :: "'w api \<Rightarrow> 'w state \<Rightarrow> (error + unit) \<times> 'w state" where
  "ensureAccessToken A s =
     (case dateNow A (world s) of (ms, w1) \<Rightarrow>
        let now = ms div 1000; s1 = s\<lparr>world := w1\<rparr> in
        if tokenExpirationTime s1 > now + 60 then (Inr (), s1)
        else
          case request CRefresh (refreshAccessToken A) s1 of
            (Inl e, s2) \<Rightarrow> (Inl e, consoleLog (ErrRefreshingToken e) s2)
          | (Inr data, s2) \<Rightarrow>
              let s3 = s2\<lparr>world := setAccessToken A (access_token data) (world s2)\<rparr>;
                  expiresIn = (if expires_in data = 0 then 3600 else expires_in data);
                  s4 = s3\<lparr>tokenExpirationTime := now + expiresIn - 300\<rparr>
              in (Inr (), consoleLog (LogTokenRefreshed expiresIn) s4))"

subsection \<open>Recently played tracks\<close>

text \<open>The rows of a page that have both a track and a play time.\<close>

definition playedTracksOf :: "history_item list \<Rightarrow> played_track list" where
  "playedTracksOf items =
     List.map_filter
       (\<lambda>item. case h_track item of
                 None \<Rightarrow> None
               | Some u \<Rightarrow> (case played_at item of
                             None \<Rightarrow> None
                           | Some t \<Rightarrow> Some \<lparr>uri = u, playedAt = t\<rparr>))
       items"

text \<open>
  The \<open>while\<close> loop of \<open>getRecentlyPlayedTracks\<close>. \<open>beforeTimestamp\<close> is \<open>None\<close> when it is
  undefined or not a number; the request carries \<open>before\<close> only when the timestamp is
  truthy, so not for 0 either. A rejected request leaves the loop at once.
\<close>

definition beforeOption :: "int option \<Rightarrow> int option" where
  "beforeOption beforeTimestamp =
     (case beforeTimestamp of
        None \<Rightarrow> None
      | Some t \<Rightarrow> if t = 0 then None else Some t)"

function playedLoop ::
  "'w api \<Rightarrow> int option \<Rightarrow> bool \<Rightarrow> nat \<Rightarrow> played_track list \<Rightarrow> 'w state
    \<Rightarrow> (error + played_track list) \<times> 'w state" where
  "playedLoop A beforeTimestamp moreTracksAvailable requestCount tracks s =
     (if moreTracksAvailable \<and> length tracks < 100 \<and> requestCount < 3 then
        let before = beforeOption beforeTimestamp;
            s1 = consoleLog (LogMakingRequest (Suc requestCount)) s
        in
        case request (CRecentlyPlayed 50 before) (getMyRecentlyPlayedTracks A 50 before) s1 of
          (Inl e, s2) \<Rightarrow> (Inl e, s2)
        | (Inr items, s2) \<Rightarrow>
            if length items = 0 then
              playedLoop A beforeTimestamp False (Suc requestCount) tracks s2
            else
              let tracks' = tracks @ playedTracksOf items;
                  s3 = consoleLog (LogRetrievedSoFar (length tracks')) s2
              in
              if length items > 0 \<and> length tracks' < 100 then
                playedLoop A (played_at (last items)) moreTracksAvailable (Suc requestCount) tracks' s3
              else
                playedLoop A beforeTimestamp False (Suc requestCount) tracks' s3
      else (Inr tracks, s))"
  by pat_completeness auto
termination
  by (relation "measure (\<lambda>(A, b, m, requestCount, t, s). 3 - requestCount)") auto

declare playedLoop.simps [simp del]

text \<open>
  \<open>Array.from(new Map(tracks.map(t => [t.uri, t])).values())\<close>: a \<open>Map\<close> built from
  pairs keeps, for each key, the place of its first pair and the value of its last.
\<close>

definition uniqueByUri :: "played_track list \<Rightarrow> played_track list" where
  "uniqueByUri tracks = map snd (foldl (\<lambda>m t. AList.update (uri t) t m) [] tracks)"

definition getRecentlyPlayedTracks ::
  "'w api \<Rightarrow> 'w state \<Rightarrow> (error + played_track list) \<times> 'w state" where
  "getRecentlyPlayedTracks A s =
     (case ensureAccessToken A s of
        (Inl e, s1) \<Rightarrow> (Inl e, s1)
      | (Inr _, s1) \<Rightarrow>
          (case playedLoop A None True 0 [] s1 of
             (Inl e, s2) \<Rightarrow> (Inl e, consoleLog (ErrRetrievingRecentlyPlayed e) s2)
           | (Inr tracks, s2) \<Rightarrow>
               let uniqueTracks = uniqueByUri tracks in
               (Inr uniqueTracks, consoleLog (LogRetrievedUnique (length uniqueTracks)) s2)))"

subsection \<open>Reading a playlist page by page\<close>

text \<open>
  The \<open>while (hasMoreTracks)\<close> loop, the same in \<open>getSourcePlaylistTracks\<close> and
  \<open>getMirrorPlaylistTracks\<close> but for the rows it pushes (\<open>push\<close>, given the offset of the
  page): request 100 rows at \<open>offset\<close>, push, add 100 to the offset, go on while the page
  had exactly 100 rows. Nothing else bounds the loop, so it is a partial function: \<open>None\<close>
  is a loop that never ends.
\<close>

partial_function (option) fetchAllPages ::
  "'w api \<Rightarrow> string \<Rightarrow> (nat \<Rightarrow> playlist_item list \<Rightarrow> 'a list) \<Rightarrow> nat \<Rightarrow> 'a list \<Rightarrow> 'w state
    \<Rightarrow> ((error + 'a list) \<times> 'w state) option" where
  "fetchAllPages A playlistId push offset tracks s =
     (case request (CGetTracks playlistId offset 100) (getPlaylistTracks A playlistId offset 100) s of
        (Inl e, s') \<Rightarrow> Some (Inl e, s')
      | (Inr items, s') \<Rightarrow>
          let tracks' = tracks @ push offset items in
          if length items = 100 then fetchAllPages A playlistId push (offset + 100) tracks' s'
          else Some (Inr tracks', s'))"

declare fetchAllPages.simps [code]

text \<open>The rows pushed by \<open>getSourcePlaylistTracks\<close>: those with a track.\<close>

definition sourceRows :: "nat \<Rightarrow> playlist_item list \<Rightarrow> source_track list" where
  "sourceRows offset items =
     List.map_filter
       (\<lambda>item. case track item of
                 None \<Rightarrow> None
               | Some u \<Rightarrow> Some \<lparr>uri = u, addedAt = added_at item\<rparr>)
       items"

text \<open>The rows pushed by \<open>getMirrorPlaylistTracks\<close>: those with a track and a non-empty
  URI, each with its position \<open>offset + i\<close>.\<close>

definition mirrorRows :: "nat \<Rightarrow> playlist_item list \<Rightarrow> mirror_track list" where
  "mirrorRows offset items =
     List.map_filter
       (\<lambda>(i, item). case track item of
                      None \<Rightarrow> None
                    | Some u \<Rightarrow> if u = [] then None else Some \<lparr>uri = u, position = i\<rparr>)
       (enumerate offset items)"

text \<open>An environment variable that is unset or empty is falsy.\<close>

definition envVar :: "string \<Rightarrow> string option \<Rightarrow> error + string" where
  "envVar name v =
     (case v of
        None \<Rightarrow> Inl (EnvNotSet name)
      | Some x \<Rightarrow> if x = [] then Inl (EnvNotSet name) else Inr x)"

definition getSourcePlaylistTracks :: "'w api \<Rightarrow> 'w state \<Rightarrow> (source_track list, 'w) outcome" where
  "getSourcePlaylistTracks A s =
     (case ensureAccessToken A s of
        (Inl e, s1) \<Rightarrow> Some (Inl e, s1)
      | (Inr _, s1) \<Rightarrow>
          (case envVar ''SOURCE_PLAYLIST_ID'' (SOURCE_PLAYLIST_ID A) of
             Inl e \<Rightarrow> Some (Inl e, s1)
           | Inr sourcePlaylistId \<Rightarrow> fetchAllPages A sourcePlaylistId sourceRows 0 [] s1))"

definition getMirrorPlaylistTracks :: "'w api \<Rightarrow> 'w state \<Rightarrow> (mirror_track list, 'w) outcome" where
  "getMirrorPlaylistTracks A s =
     (case ensureAccessToken A s of
        (Inl e, s1) \<Rightarrow> Some (Inl e, s1)
      | (Inr _, s1) \<Rightarrow>
          (case envVar ''MIRROR_PLAYLIST_ID'' (MIRROR_PLAYLIST_ID A) of
             Inl e \<Rightarrow> Some (Inl e, s1)
           | Inr mirrorPlaylistId \<Rightarrow> fetchAllPages A mirrorPlaylistId mirrorRows 0 [] s1))"

text \<open>
  A sequence of pages as the answers of the host to the successive requests of the loop,
  from \<open>offset\<close> on and in the world \<open>w\<close>.
\<close>

fun answers :: "'w api \<Rightarrow> string \<Rightarrow> nat \<Rightarrow> 'w \<Rightarrow> playlist_item list list \<Rightarrow> bool" where
  "answers A playlistId offset w [] = True"
| "answers A playlistId offset w (p # ps) =
     (case getPlaylistTracks A playlistId offset 100 w of
        (r, w') \<Rightarrow> r = Inr p \<and> answers A playlistId (offset + 100) w' ps)"

subsection \<open>Writing the mirror playlist\<close>

text \<open>\<open>xs.slice(i, j)\<close> for \<open>0 \<le> i \<le> j\<close>.\<close>

definition slice :: "nat \<Rightarrow> nat \<Rightarrow> 'a list \<Rightarrow> 'a list" where
  "slice i j xs = take (j - i) (drop i xs)"

function addLoop ::
  "'w api \<Rightarrow> string \<Rightarrow> uri list \<Rightarrow> nat option \<Rightarrow> nat \<Rightarrow> 'w state \<Rightarrow> (error + unit) \<times> 'w state" where
  "addLoop A mirrorPlaylistId trackUris position' i s =
     (if i < length trackUris then
        let chunk = slice i (i + 100) trackUris;
            pos = (case position' of None \<Rightarrow> None | Some p \<Rightarrow> Some (p + i))
        in
        case request (CAdd mirrorPlaylistId chunk pos)
               (addTracksToPlaylist A mirrorPlaylistId chunk pos) s of
          (Inl e, s') \<Rightarrow> (Inl e, s')
        | (Inr _, s') \<Rightarrow> addLoop A mirrorPlaylistId trackUris position' (i + 100) s'
      else (Inr (), s))"
  by pat_completeness auto
termination
  by (relation "measure (\<lambda>(A, p, trackUris, pos, i, s). length trackUris - i)") auto

declare addLoop.simps [simp del]

definition addTracksToMirrorPlaylist ::
  "'w api \<Rightarrow> uri list \<Rightarrow> nat option \<Rightarrow> 'w state \<Rightarrow> (error + unit) \<times> 'w state" where
  "addTracksToMirrorPlaylist A trackUris position' s =
     (if length trackUris = 0 then (Inr (), s)
      else
        case ensureAccessToken A s of
          (Inl e, s1) \<Rightarrow> (Inl e, s1)
        | (Inr _, s1) \<Rightarrow>
            (case envVar ''MIRROR_PLAYLIST_ID'' (MIRROR_PLAYLIST_ID A) of
               Inl e \<Rightarrow> (Inl e, s1)
             | Inr mirrorPlaylistId \<Rightarrow> addLoop A mirrorPlaylistId trackUris position' 0 s1))"

function removeLoop ::
  "'w api \<Rightarrow> string \<Rightarrow> uri list \<Rightarrow> nat \<Rightarrow> 'w state \<Rightarrow> (error + unit) \<times> 'w state" where
  "removeLoop A mirrorPlaylistId tracks i s =
     (if i < length tracks then
        let chunk = slice i (i + 100) tracks in
        case request (CRemove mirrorPlaylistId chunk)
               (removeTracksFromPlaylist A mirrorPlaylistId chunk) s of
          (Inl e, s') \<Rightarrow> (Inl e, s')
        | (Inr _, s') \<Rightarrow> removeLoop A mirrorPlaylistId tracks (i + 100) s'
      else (Inr (), s))"
  by pat_completeness auto
termination
  by (relation "measure (\<lambda>(A, p, tracks, i, s). length tracks - i)") auto

declare removeLoop.simps [simp del]

definition removeTracksFromMirrorPlaylist ::
  "'w api \<Rightarrow> uri list \<Rightarrow> 'w state \<Rightarrow> (error + unit) \<times> 'w state" where
  "removeTracksFromMirrorPlaylist A trackUris s =
     (if length trackUris = 0 then (Inr (), s)
      else
        case ensureAccessToken A s of
          (Inl e, s1) \<Rightarrow> (Inl e, s1)
        | (Inr _, s1) \<Rightarrow>
            (case envVar ''MIRROR_PLAYLIST_ID'' (MIRROR_PLAYLIST_ID A) of
               Inl e \<Rightarrow> (Inl e, s1)
             | Inr mirrorPlaylistId \<Rightarrow> removeLoop A mirrorPlaylistId trackUris 0 s1))"

text \<open>The chunks that the \<open>for\<close> loops over \<open>i\<close> cut, from index \<open>i\<close> on.\<close>

function chunksFrom :: "nat \<Rightarrow> 'a list \<Rightarrow> 'a list list" where
  "chunksFrom i xs = (if i < length xs then slice i (i + 100) xs # chunksFrom (i + 100) xs else [])"
  by pat_completeness auto
termination
  by (relation "measure (\<lambda>(i, xs). length xs - i)") auto

declare chunksFrom.simps [simp del]

text \<open>The write requests issued so far.\<close>

definition writes :: "'w state \<Rightarrow> call list" where
  "writes s = filter isWrite (calls s)"

text \<open>
  A host whose clock, token refresh and read requests leave an observation \<open>obs\<close> of the
  world as it is; for the reference host, its playlists.
\<close>

definition readsPreserve :: "'w api \<Rightarrow> ('w \<Rightarrow> 'o) \<Rightarrow> bool" where
  "readsPreserve A obs =
     (\<forall>w. obs (snd (dateNow A w)) = obs w
        \<and> obs (snd (refreshAccessToken A w)) = obs w
        \<and> (\<forall>t. obs (setAccessToken A t w) = obs w)
        \<and> (\<forall>p offset limit. obs (snd (getPlaylistTracks A p offset limit w)) = obs w)
        \<and> (\<forall>limit before. obs (snd (getMyRecentlyPlayedTracks A limit before w)) = obs w))"

section \<open>The playlist synchroniser\<close>

text \<open>What \<open>syncMirrorPlaylist\<close> holds once its three fetches are done.\<close>

record snapshot =
  sourceTracks :: "source_track list"
  tracksWithinLastYear :: "source_track list"
  recentlyPlayedTracks :: "played_track list"
  recentlyPlayedUris :: "uri set"
  mirrorTracks :: "mirror_track list"

text \<open>Lines 42 to 48: the log line, the filter on the time of adding, its log line.\<close>

definition withinLastYear ::
  "'w api \<Rightarrow> source_track list \<Rightarrow> 'w state \<Rightarrow> source_track list \<times> 'w state" where
  "withinLastYear A src s =
     (let s1 = consoleLog (LogFoundSource (length src)) s in
      case filterW (\<lambda>t. isAddedWithinLastYear A (addedAt t)) src (world s1) of
        (within, w) \<Rightarrow> (within, consoleLog (LogWithinLastYear (length within)) (s1\<lparr>world := w\<rparr>)))"

text \<open>Lines 52 to 60: the log line, the set of the URIs played within the lock period,
  its log line.\<close>

definition lockedUris ::
  "'w api \<Rightarrow> played_track list \<Rightarrow> 'w state \<Rightarrow> uri set \<times> 'w state" where
  "lockedUris A played s =
     (let s1 = consoleLog (LogFoundRecentlyPlayed (length played)) s in
      case filterW (\<lambda>t. isPlayedRecentlyWithinLockPeriod A (playedAt t)) played (world s1) of
        (locked, w) \<Rightarrow>
          let uris = set (map uri locked) in
          (uris, consoleLog (LogInLockPeriod (card uris)) (s1\<lparr>world := w\<rparr>)))"

text \<open>The read phase: the three fetches with what is computed between them, in the order
  of the source.\<close>

definition fetchPhase :: "'w api \<Rightarrow> 'w state \<Rightarrow> (snapshot, 'w) outcome" where
  "fetchPhase A s =
     andThen (getSourcePlaylistTracks A s) (\<lambda>src s1.
       case withinLastYear A src s1 of (within, s2) \<Rightarrow>
       andThen (Some (getRecentlyPlayedTracks A s2)) (\<lambda>played s3.
         case lockedUris A played s3 of (locked, s4) \<Rightarrow>
         andThen (getMirrorPlaylistTracks A s4) (\<lambda>mirror s5.
           Some (Inr \<lparr>sourceTracks = src, tracksWithinLastYear = within,
                      recentlyPlayedTracks = played, recentlyPlayedUris = locked,
                      mirrorTracks = mirror\<rparr>,
                 consoleLog (LogFoundMirror (length mirror)) s5))))"

definition eligibleTracks :: "snapshot \<Rightarrow> source_track list" where
  "eligibleTracks snap =
     filter (\<lambda>t. uri t \<notin> recentlyPlayedUris snap) (tracksWithinLastYear snap)"

definition currentMirrorUris :: "snapshot \<Rightarrow> uri set" where
  "currentMirrorUris snap = set (map uri (mirrorTracks snap))"

definition shouldBeInMirrorUris :: "snapshot \<Rightarrow> uri set" where
  "shouldBeInMirrorUris snap = set (map uri (eligibleTracks snap))"

definition tracksToAdd :: "snapshot \<Rightarrow> source_track list" where
  "tracksToAdd snap = filter (\<lambda>t. uri t \<notin> currentMirrorUris snap) (eligibleTracks snap)"

definition tracksToRemove :: "snapshot \<Rightarrow> mirror_track list" where
  "tracksToRemove snap = filter (\<lambda>t. uri t \<notin> shouldBeInMirrorUris snap) (mirrorTracks snap)"

definition allCurrentUris :: "snapshot \<Rightarrow> uri list" where
  "allCurrentUris snap = map uri (mirrorTracks snap)"

text \<open>
  \<open>[...eligibleTracks].sort((a, b) => b.addedAt.getTime() - a.addedAt.getTime())\<close>: the
  sort of the language is stable, so this is the stable sort by descending \<open>addedAt\<close>.
\<close>

definition sortedTracks :: "snapshot \<Rightarrow> source_track list" where
  "sortedTracks snap = sort_key (\<lambda>t. - addedAt t) (eligibleTracks snap)"

definition urisInOrder :: "snapshot \<Rightarrow> uri list" where
  "urisInOrder snap = map uri (sortedTracks snap)"

text \<open>The \<open>for\<close> loop that adds the URIs in chunks of 100.\<close>

function addChunks :: "'w api \<Rightarrow> uri list \<Rightarrow> nat \<Rightarrow> 'w state \<Rightarrow> (error + unit) \<times> 'w state" where
  "addChunks A uris i s =
     (if i < length uris then
        let chunk = slice i (i + 100) uris in
        case addTracksToMirrorPlaylist A chunk None s of
          (Inl e, s') \<Rightarrow> (Inl e, s')
        | (Inr _, s') \<Rightarrow>
            let s'' = (if i mod 100 = 0 \<or> i + 100 \<ge> length uris
                       then consoleLog (LogAdded (min (i + 100) (length uris)) (length uris)) s'
                       else s')
            in addChunks A uris (i + 100) s''
      else (Inr (), s))"
  by pat_completeness auto
termination
  by (relation "measure (\<lambda>(A, uris, i, s). length uris - i)") auto

declare addChunks.simps [simp del]

text \<open>The branch taken when a change is detected: remove all, then add in order.\<close>

definition rebuild :: "'w api \<Rightarrow> snapshot \<Rightarrow> 'w state \<Rightarrow> (error + unit) \<times> 'w state" where
  "rebuild A snap s =
     (let s1 = consoleLog LogChangesDetected s in
      case (if length (allCurrentUris snap) > 0
            then removeTracksFromMirrorPlaylist A (allCurrentUris snap) (consoleLog LogRemovingAll s1)
            else (Inr (), s1)) of
        (Inl e, s2) \<Rightarrow> (Inl e, s2)
      | (Inr _, s2) \<Rightarrow>
          (case addChunks A (urisInOrder snap) 0 (consoleLog LogAddingNewestFirst s2) of
             (Inl e, s3) \<Rightarrow> (Inl e, s3)
           | (Inr _, s3) \<Rightarrow>
               let s4 = consoleLog LogPlaylistUpdated s3 in
               (Inr (), if card (recentlyPlayedUris snap) > 0
                        then consoleLog (LogExcluded (card (recentlyPlayedUris snap))) s4
                        else s4)))"

text \<open>From the computation of the eligible tracks to the end of the \<open>if\<close>.\<close>

definition applyPhase :: "'w api \<Rightarrow> snapshot \<Rightarrow> 'w state \<Rightarrow> (error + unit) \<times> 'w state" where
  "applyPhase A snap s =
     (let s1 = consoleLog (LogEligible (length (eligibleTracks snap))) s in
      if length (tracksToAdd snap) > 0 \<or> length (tracksToRemove snap) > 0
      then rebuild A snap s1
      else (Inr (), consoleLog LogNoChanges s1))"

text \<open>\<open>syncMirrorPlaylist\<close>: the \<open>try\<close> block, and the \<open>catch\<close> that logs and raises again.
  It resolves with no value.\<close>

definition syncMirrorPlaylist :: "'w api \<Rightarrow> 'w state \<Rightarrow> (unit, 'w) outcome" where
  "syncMirrorPlaylist A s =
     (case andThen (fetchPhase A (consoleLog LogStarting s)) (\<lambda>snap s1.
             case applyPhase A snap s1 of
               (Inl e, s2) \<Rightarrow> Some (Inl e, s2)
             | (Inr _, s2) \<Rightarrow> Some (Inr (), consoleLog LogSyncCompleted s2)) of
        None \<Rightarrow> None
      | Some (Inl e, s') \<Rightarrow> Some (Inl e, consoleLog (ErrSyncing e) s')
      | Some (Inr u, s') \<Rightarrow> Some (Inr u, s'))"

section \<open>A reference host\<close>

text \<open>
  The service as the client's comments and sections 4.1 and 6 of the specification describe
  it: playlists are lists of rows read in pages of at most 100, tracks are appended at the
  end (or inserted at a position), removal by URI deletes every row with that URI and is a
  no-op for an absent one, a write of more than 100 items is refused, the play history is
  newest first and read in pages of at most 50 strictly before a cursor. The n-th request
  received rejects when \<open>sp_fails n\<close>. The k-th reading of the clock is \<open>sp_clock k\<close>.
\<close>

record spotify =
  sp_clock :: "nat \<Rightarrow> int"
  sp_ticks :: nat
  sp_fails :: "nat \<Rightarrow> bool"
  sp_count :: nat
  sp_playlists :: "string \<Rightarrow> playlist_item list option"
  sp_history :: "history_item list"
  sp_token :: string

definition sp_dateNow :: "spotify \<Rightarrow> int \<times> spotify" where
  "sp_dateNow w = (sp_clock w (sp_ticks w), w\<lparr>sp_ticks := Suc (sp_ticks w)\<rparr>)"

definition sp_request :: "(spotify \<Rightarrow> (error + 'r) \<times> spotify) \<Rightarrow> spotify \<Rightarrow> (error + 'r) \<times> spotify" where
  "sp_request f w =
     (let w' = w\<lparr>sp_count := Suc (sp_count w)\<rparr> in
      if sp_fails w (sp_count w) then (Inl (ApiError (sp_count w)), w') else f w')"

definition sp_refreshAccessToken :: "spotify \<Rightarrow> (error + token_data) \<times> spotify" where
  "sp_refreshAccessToken =
     sp_request (\<lambda>w. (Inr \<lparr>access_token = ''token'', expires_in = 3600\<rparr>, w))"

definition sp_setAccessToken :: "string \<Rightarrow> spotify \<Rightarrow> spotify" where
  "sp_setAccessToken t w = w\<lparr>sp_token := t\<rparr>"

definition sp_getPlaylistTracks ::
  "string \<Rightarrow> nat \<Rightarrow> nat \<Rightarrow> spotify \<Rightarrow> (error + playlist_item list) \<times> spotify" where
  "sp_getPlaylistTracks pid offset limit =
     sp_request (\<lambda>w. case sp_playlists w pid of
                       None \<Rightarrow> (Inl NoSuchPlaylist, w)
                     | Some pl \<Rightarrow> (Inr (take (min limit 100) (drop offset pl)), w))"

definition sp_addTracksToPlaylist ::
  "string \<Rightarrow> uri list \<Rightarrow> nat option \<Rightarrow> spotify \<Rightarrow> (error + unit) \<times> spotify" where
  "sp_addTracksToPlaylist pid uris pos =
     sp_request (\<lambda>w. case sp_playlists w pid of
                       None \<Rightarrow> (Inl NoSuchPlaylist, w)
                     | Some pl \<Rightarrow>
                         if length uris > 100 then (Inl TooManyItems, w)
                         else
                           let rows = map (\<lambda>u. \<lparr>added_at = sp_clock w (sp_ticks w), track = Some u\<rparr>) uris;
                               pl' = (case pos of
                                        None \<Rightarrow> pl @ rows
                                      | Some p \<Rightarrow> take p pl @ rows @ drop p pl)
                           in (Inr (), w\<lparr>sp_playlists := (sp_playlists w)(pid \<mapsto> pl')\<rparr>))"

definition sp_removeTracksFromPlaylist ::
  "string \<Rightarrow> uri list \<Rightarrow> spotify \<Rightarrow> (error + unit) \<times> spotify" where
  "sp_removeTracksFromPlaylist pid uris =
     sp_request (\<lambda>w. case sp_playlists w pid of
                       None \<Rightarrow> (Inl NoSuchPlaylist, w)
                     | Some pl \<Rightarrow>
                         if length uris > 100 then (Inl TooManyItems, w)
                         else
                           let pl' = filter (\<lambda>row. case track row of
                                                      None \<Rightarrow> True
                                                    | Some u \<Rightarrow> u \<notin> set uris) pl
                           in (Inr (), w\<lparr>sp_playlists := (sp_playlists w)(pid \<mapsto> pl')\<rparr>))"

definition sp_getMyRecentlyPlayedTracks ::
  "nat \<Rightarrow> int option \<Rightarrow> spotify \<Rightarrow> (error + history_item list) \<times> spotify" where
  "sp_getMyRecentlyPlayedTracks limit before =
     sp_request (\<lambda>w.
       let older = (case before of
                      None \<Rightarrow> sp_history w
                    | Some b \<Rightarrow> filter (\<lambda>h. case played_at h of
                                               None \<Rightarrow> False
                                             | Some t \<Rightarrow> t < b) (sp_history w))
       in (Inr (take (min limit 50) older), w))"

text \<open>The host with a configuration: the two playlist identifiers of the environment and
  the two calendar subtractions.\<close>

definition spotifyApi ::
  "string option \<Rightarrow> string option \<Rightarrow> (int \<Rightarrow> int) \<Rightarrow> (int \<Rightarrow> int) \<Rightarrow> spotify api" where
  "spotifyApi sourceId mirrorId year days =
     \<lparr>dateNow = sp_dateNow,
      minusOneYear = year,
      minusFiveDays = days,
      SOURCE_PLAYLIST_ID = sourceId,
      MIRROR_PLAYLIST_ID = mirrorId,
      refreshAccessToken = sp_refreshAccessToken,
      setAccessToken = sp_setAccessToken,
      getPlaylistTracks = sp_getPlaylistTracks,
      addTracksToPlaylist = sp_addTracksToPlaylist,
      removeTracksFromPlaylist = sp_removeTracksFromPlaylist,
      getMyRecentlyPlayedTracks = sp_getMyRecentlyPlayedTracks\<rparr>"

text \<open>A year of 365 days and five days of 24 hours, in milliseconds, for the examples.\<close>

definition exampleApi :: "spotify api" where
  "exampleApi = spotifyApi (Some ''src'') (Some ''mir'')
                  (\<lambda>t. t - 31536000000) (\<lambda>t. t - 432000000)"

text \<open>A state at process start: nothing requested, nothing logged, no token.\<close>

definition startState :: "'w \<Rightarrow> 'w state" where
  "startState w = \<lparr>world = w, tokenExpirationTime = 0, console = [], calls = []\<rparr>"

text \<open>
  What a step that only reads does to the state: the write requests and the observation
  of the world stay, the console only grows.
\<close>

definition readStep :: "('w \<Rightarrow> 'o) \<Rightarrow> 'w state \<Rightarrow> 'w state \<Rightarrow> bool" where
  "readStep obs s s' =
     (writes s' = writes s \<and> obs (world s') = obs (world s) \<and> prefix (console s) (console s'))"

text \<open>The rows of a playlist that a removal of the URIs \<open>U\<close> leaves: those without a track and
  those whose URI is not in \<open>U\<close>.\<close>

definition removeUris :: "uri set \<Rightarrow> playlist_item list \<Rightarrow> playlist_item list" where
  "removeUris U pl = filter (\<lambda>row. case track row of None \<Rightarrow> True | Some u \<Rightarrow> u \<notin> U) pl"

text \<open>The clock and the play history of the reference host are the same in two worlds.\<close>

definition sameWorld :: "spotify \<Rightarrow> spotify \<Rightarrow> bool" where
  "sameWorld w w' = (sp_clock w' = sp_clock w \<and> sp_history w' = sp_history w)"

text \<open>The URI that \<open>getMirrorPlaylistTracks\<close> reads from a row: none for a null track or an
  empty URI.\<close>

definition uriOfRow :: "playlist_item \<Rightarrow> uri option" where
  "uriOfRow row = (case track row of None \<Rightarrow> None | Some u \<Rightarrow> if u = [] then None else Some u)"

text \<open>The tracks of the mirror playlist of the reference host after a successful call of
  \<open>syncMirrorPlaylist\<close>.\<close>

definition mirrorAfter :: "spotify api \<Rightarrow> spotify state \<Rightarrow> uri option list option" where
  "mirrorAfter A s =
     (case syncMirrorPlaylist A s of
        Some (Inr u, s') \<Rightarrow>
          (case MIRROR_PLAYLIST_ID A of
             None \<Rightarrow> None
           | Some mid \<Rightarrow> map_option (map track) (sp_playlists (world s') mid))
      | _ \<Rightarrow> None)"

text \<open>Two calls in a row: when the first call succeeds, the outcome of the second call and
  the write requests that the second call issued.\<close>

definition syncTwice :: "'w api \<Rightarrow> 'w state \<Rightarrow> ((error + unit) \<times> call list) option" where
  "syncTwice A s =
     (case syncMirrorPlaylist A s of
        Some (Inr u, s1) \<Rightarrow>
          (case syncMirrorPlaylist A s1 of
             Some (r, s2) \<Rightarrow> Some (r, drop (length (writes s1)) (writes s2))
           | None \<Rightarrow> None)
      | _ \<Rightarrow> None)"

text \<open>
  A sequence of pages of the play history as the answers of the host to the successive
  requests of the loop of \<open>getRecentlyPlayedTracks\<close>, each request carrying the cursor taken
  from the last row of the page before; \<open>w'\<close> is the world after the last answer.
  \<open>cursorAfter\<close> is the cursor that the loop holds after these pages.
\<close>

fun historyAnswers :: "'w api \<Rightarrow> int option \<Rightarrow> 'w \<Rightarrow> history_item list list \<Rightarrow> 'w \<Rightarrow> bool" where
  "historyAnswers A beforeTimestamp w [] w' = (w' = w)"
| "historyAnswers A beforeTimestamp w (p # ps) w' =
     (case getMyRecentlyPlayedTracks A 50 (beforeOption beforeTimestamp) w of
        (r, w1) \<Rightarrow> r = Inr p \<and> historyAnswers A (played_at (last p)) w1 ps w')"

definition cursorAfter :: "history_item list list \<Rightarrow> int option" where
  "cursorAfter ps = (if ps = [] then None else played_at (last (last ps)))"

text \<open>
  A play history that is newest first: every event carries a track and a time of play
  after the epoch, and the times are strictly decreasing.
\<close>

definition newestFirst :: "history_item list \<Rightarrow> bool" where
  "newestFirst hist =
     ((\<forall>e \<in> set hist. h_track e \<noteq> None \<and> (case played_at e of None \<Rightarrow> False | Some t \<Rightarrow> 0 < t))
      \<and> sorted_wrt (\<lambda>e e'. the (played_at e') < the (played_at e)) hist)"

text \<open>
  No item has, among the 100 most recent events, an event at or after the cutoff of the
  lock period and another before it.
\<close>

definition lockUnsplit :: "int \<Rightarrow> history_item list \<Rightarrow> bool" where
  "lockUnsplit cooldownCutoff hist =
     (\<forall>e \<in> set (take 100 hist). \<forall>e' \<in> set (take 100 hist).
        h_track e = h_track e'
        \<longrightarrow> (cooldownCutoff \<le> the (played_at e)) = (cooldownCutoff \<le> the (played_at e')))"

text \<open>
  The lines of the console written by the functions of the API client; the other lines are
  written by \<open>syncMirrorPlaylist\<close> itself. \<open>prints s s' own\<close>: from \<open>s\<close> to \<open>s'\<close> the console
  has grown, and \<open>own\<close> are the new lines that are not lines of the client.
\<close>

fun clientLine :: "msg \<Rightarrow> bool" where
  "clientLine (LogTokenRefreshed _) = True"
| "clientLine (ErrRefreshingToken _) = True"
| "clientLine (LogMakingRequest _) = True"
| "clientLine (LogRetrievedSoFar _) = True"
| "clientLine (LogRetrievedUnique _) = True"
| "clientLine (ErrRetrievingRecentlyPlayed _) = True"
| "clientLine _ = False"

definition prints :: "'w state \<Rightarrow> 'w state \<Rightarrow> msg list \<Rightarrow> bool" where
  "prints s s' own = (\<exists>xs. console s' = console s @ xs \<and> filter (\<lambda>m. \<not> clientLine m) xs = own)"

subsection \<open>The desired mirror, after the specification\<close>

text \<open>
  Sections 3 and 4.2 of the specification (steps 2 to 4), read on what the host holds. The
  source entries are the rows of the source playlist that carry a track. The consumption
  events of a run are the 100 most recent events of the play history. An item is locked
  when one of these events, for that item, is at or after the cutoff of the cooldown
  window. The desired entries are the source entries added at or after the cutoff of the
  retention window whose item is not locked.
\<close>

definition specSourceEntries :: "playlist_item list \<Rightarrow> source_track list" where
  "specSourceEntries srcPl =
     map (\<lambda>row. \<lparr>uri = the (track row), addedAt = added_at row\<rparr>)
       (filter (\<lambda>row. track row \<noteq> None) srcPl)"

definition specLockedItems :: "int \<Rightarrow> history_item list \<Rightarrow> uri set" where
  "specLockedItems cooldownCutoff hist =
     set (map (\<lambda>e. the (h_track e))
            (filter (\<lambda>e. h_track e \<noteq> None
                        \<and> (case played_at e of None \<Rightarrow> False | Some t \<Rightarrow> cooldownCutoff \<le> t))
               (take 100 hist)))"

definition specDesired :: "int \<Rightarrow> int \<Rightarrow> playlist_item list \<Rightarrow> history_item list \<Rightarrow> source_track list" where
  "specDesired retentionCutoff cooldownCutoff srcPl hist =
     filter (\<lambda>s. retentionCutoff \<le> addedAt s \<and> uri s \<notin> specLockedItems cooldownCutoff hist)
       (specSourceEntries srcPl)"

subsection \<open>Example worlds\<close>

text \<open>
  The clock stands at \<open>10^12\<close> ms. Track A was played one day ago and six days ago; the
  history is newest first.
\<close>

definition playedTwice :: spotify where
  "playedTwice =
     \<lparr>sp_clock = (\<lambda>k. 1000000000000), sp_ticks = 0, sp_fails = (\<lambda>n. False), sp_count = 0,
      sp_playlists = Map.empty,
      sp_history = [\<lparr>h_track = Some ''A'', played_at = Some 999913600000\<rparr>,
                    \<lparr>h_track = Some ''A'', played_at = Some 999481600000\<rparr>],
      sp_token = []\<rparr>"

text \<open>The same history with A in the source playlist, added 10 days ago, and an empty mirror.\<close>

definition playedTwiceInSource :: spotify where
  "playedTwiceInSource =
     playedTwice\<lparr>sp_playlists :=
       [''src'' \<mapsto> [\<lparr>added_at = 999136000000, track = Some ''A''\<rparr>], ''mir'' \<mapsto> []]\<rparr>"

text \<open>The same world, where the third request received (the second page of the history)
  is rejected.\<close>

definition secondPageFails :: spotify where
  "secondPageFails = playedTwice\<lparr>sp_fails := (\<lambda>n. n = 2)\<rparr>"

text \<open>A world with an empty history, and one whose first request is rejected.\<close>

definition nothingPlayed :: spotify where
  "nothingPlayed = playedTwice\<lparr>sp_history := []\<rparr>"

definition firstRequestFails :: spotify where
  "firstRequestFails = playedTwice\<lparr>sp_fails := (\<lambda>n. n = 0)\<rparr>"

text \<open>A world whose source playlist has exactly 100 rows.\<close>

definition hundredRows :: spotify where
  "hundredRows =
     playedTwice\<lparr>sp_playlists :=
       [''src'' \<mapsto> replicate 100 \<lparr>added_at = 999913600000, track = Some ''A''\<rparr>,
        ''mir'' \<mapsto> []]\<rparr>"

text \<open>A host that answers every page request with a full page of 100 rows.\<close>

definition endlessApi :: "unit api" where
  "endlessApi =
     \<lparr>dateNow = (\<lambda>w. (1000000000000, w)),
      minusOneYear = (\<lambda>t. t - 31536000000),
      minusFiveDays = (\<lambda>t. t - 432000000),
      SOURCE_PLAYLIST_ID = Some ''src'',
      MIRROR_PLAYLIST_ID = Some ''mir'',
      refreshAccessToken = (\<lambda>w. (Inr \<lparr>access_token = ''token'', expires_in = 3600\<rparr>, w)),
      setAccessToken = (\<lambda>t w. w),
      getPlaylistTracks =
        (\<lambda>p offset limit w. (Inr (replicate 100 \<lparr>added_at = 999913600000, track = Some ''A''\<rparr>), w)),
      addTracksToPlaylist = (\<lambda>p uris pos w. (Inr (), w)),
      removeTracksFromPlaylist = (\<lambda>p uris w. (Inr (), w)),
      getMyRecentlyPlayedTracks = (\<lambda>limit before w. (Inr [], w))\<rparr>"

text \<open>
  The example of section 8 of the specification, clock at \<open>10^12\<close> ms: the source holds A
  (added 400 days ago), B (10 days ago) and C (2 days ago), B was played one day ago, the
  mirror holds A.
\<close>

definition specExample :: spotify where
  "specExample =
     \<lparr>sp_clock = (\<lambda>k. 1000000000000), sp_ticks = 0, sp_fails = (\<lambda>n. False), sp_count = 0,
      sp_playlists =
        [''src'' \<mapsto> [\<lparr>added_at = 965440000000, track = Some ''A''\<rparr>,
                      \<lparr>added_at = 999136000000, track = Some ''B''\<rparr>,
                      \<lparr>added_at = 999827200000, track = Some ''C''\<rparr>],
         ''mir'' \<mapsto> [\<lparr>added_at = 965440000000, track = Some ''A''\<rparr>]],
      sp_history = [\<lparr>h_track = Some ''B'', played_at = Some 999913600000\<rparr>],
      sp_token = []\<rparr>"

text \<open>The same world where the request number \<open>k\<close> (from 0) is rejected.\<close>

definition failingAt :: "nat \<Rightarrow> spotify \<Rightarrow> spotify" where
  "failingAt k w = w\<lparr>sp_fails := (\<lambda>n. n = k)\<rparr>"

text \<open>The example of the specification with the mirror already as desired: it holds C.\<close>

definition settled :: spotify where
  "settled = specExample\<lparr>sp_playlists := (sp_playlists specExample)(''mir'' \<mapsto> [\<lparr>added_at = 999827200000, track = Some ''C''\<rparr>])\<rparr>"

text \<open>B (added 10 days ago) and C (2 days ago) are in the source, nothing was played; the
  mirror holds B then C, the desired order is C then B.\<close>

definition misordered :: spotify where
  "misordered =
     specExample\<lparr>sp_playlists :=
         [''src'' \<mapsto> [\<lparr>added_at = 999136000000, track = Some ''B''\<rparr>,
                       \<lparr>added_at = 999827200000, track = Some ''C''\<rparr>],
          ''mir'' \<mapsto> [\<lparr>added_at = 999827200000, track = Some ''B''\<rparr>,
                       \<lparr>added_at = 999827200000, track = Some ''C''\<rparr>]],
       sp_history := []\<rparr>"

text \<open>The same world with an empty mirror.\<close>

definition emptied :: "spotify \<Rightarrow> spotify" where
  "emptied w = w\<lparr>sp_playlists := (sp_playlists w)(''mir'' \<mapsto> [])\<rparr>"

text \<open>The source holds track C twice, added 3 days ago and 2 days ago; the mirror is empty.\<close>

definition duplicated :: spotify where
  "duplicated =
     specExample\<lparr>sp_playlists :=
         [''src'' \<mapsto> [\<lparr>added_at = 999740800000, track = Some ''C''\<rparr>,
                       \<lparr>added_at = 999827200000, track = Some ''C''\<rparr>],
          ''mir'' \<mapsto> []],
       sp_history := []\<rparr>"

text \<open>The source holds a track whose URI is the empty string, added 3 days ago, and track C,
  added 2 days ago; the mirror is empty and nothing was played.\<close>

definition emptyUri :: spotify where
  "emptyUri =
     specExample\<lparr>sp_playlists :=
         [''src'' \<mapsto> [\<lparr>added_at = 999740800000, track = Some []\<rparr>,
                       \<lparr>added_at = 999827200000, track = Some ''C''\<rparr>],
          ''mir'' \<mapsto> []],
       sp_history := []\<rparr>"

text \<open>Both playlists hold a row without a track, a row whose track has the empty URI, and a
  row with track C.\<close>

definition oddRows :: spotify where
  "oddRows =
     specExample\<lparr>sp_playlists :=
         [''src'' \<mapsto> [\<lparr>added_at = 999740800000, track = None\<rparr>,
                       \<lparr>added_at = 999740800000, track = Some []\<rparr>,
                       \<lparr>added_at = 999827200000, track = Some ''C''\<rparr>],
          ''mir'' \<mapsto> [\<lparr>added_at = 999740800000, track = None\<rparr>,
                       \<lparr>added_at = 999740800000, track = Some []\<rparr>,
                       \<lparr>added_at = 999827200000, track = Some ''C''\<rparr>]],
       sp_history := []\<rparr>"

section \<open>Properties\<close>

text \<open>
  C9. The retention predicate is inclusive at its boundary. With \<open>now\<close> the reading of the
  clock taken by the call and the cutoff \<open>now\<close> minus one year: an entry is eligible exactly
  when its \<open>addedAt\<close> is at or after the cutoff; so an entry added exactly at the cutoff is
  eligible, and one added one millisecond before it is not.
\<close>

theorem isAddedWithinLastYear_boundary:
  "fst (isAddedWithinLastYear A t w) = (minusOneYear A (fst (dateNow A w)) \<le> t)
   \<and> fst (isAddedWithinLastYear A (minusOneYear A (fst (dateNow A w))) w)
   \<and> \<not> fst (isAddedWithinLastYear A (minusOneYear A (fst (dateNow A w)) - 1) w)"
  by (simp add: isAddedWithinLastYear_def split: prod.split)

subsection \<open>Recently played tracks\<close>

lemma playedLoop_stop [simp]:
  "\<not> (moreTracksAvailable \<and> length tracks < 100 \<and> requestCount < 3)
   \<Longrightarrow> playedLoop A b moreTracksAvailable requestCount tracks s = (Inr tracks, s)"
  by (subst playedLoop.simps) (simp only: if_not_P if_False)

text \<open>
  C2. Deduplication keeps one event per item, and the claim says it is the most recent one.
  The host returns the history newest first, and a \<open>Map\<close> keeps the last value set for a
  key: the event kept is the oldest of the fetched events of the item. For track A played
  one day ago and six days ago the client returns the event of six days ago alone, which is
  outside the lock period, while the event of one day ago is inside it; with A in the source
  the synchroniser then puts A into the mirror, one day after it was played.
\<close>

theorem getRecentlyPlayedTracks_keeps_oldest:
  "fst (getRecentlyPlayedTracks exampleApi (startState playedTwice))
     = Inr [\<lparr>uri = ''A'', playedAt = 999481600000\<rparr>]
   \<and> \<not> fst (isPlayedRecentlyWithinLockPeriod exampleApi 999481600000 playedTwice)
   \<and> fst (isPlayedRecentlyWithinLockPeriod exampleApi 999913600000 playedTwice)
   \<and> mirrorAfter exampleApi (startState playedTwiceInSource) = Some [Some ''A'']"
  by code_simp

text \<open>
  In general: the deduplicated list holds one event per URI, and an event is in it exactly
  when no later event of the fetched list has its URI. The fetched list is newest first, so
  the event kept for an item is the oldest one fetched.
\<close>

lemma uniqueByUri_map:
  "distinct (map fst (foldl (\<lambda>m t. AList.update (uri t) t m) [] tracks))
   \<and> map_of (foldl (\<lambda>m t. AList.update (uri t) t m) [] tracks)
       = map_of (rev (map (\<lambda>t. (uri t, t)) tracks))"
proof (induction tracks rule: rev_induct)
  case Nil
  show ?case by simp
next
  case (snoc x xs)
  then show ?case
    by (simp add: distinct_update update_conv' fun_upd_def fun_eq_iff)
qed

lemma map_of_rev_last:
  "map_of (rev (map (\<lambda>t. (uri t, t)) tracks)) k = Some t
   \<longleftrightarrow> (\<exists>ys zs. tracks = ys @ t # zs \<and> uri t = k \<and> k \<notin> uri ` set zs)"
proof (induction tracks rule: rev_induct)
  case Nil
  show ?case by simp
next
  case (snoc x xs)
  show ?case
  proof (cases "uri x = k")
    case True
    have "(\<exists>ys zs. xs @ [x] = ys @ t # zs \<and> uri t = k \<and> k \<notin> uri ` set zs) \<longleftrightarrow> t = x"
    proof
      assume "\<exists>ys zs. xs @ [x] = ys @ t # zs \<and> uri t = k \<and> k \<notin> uri ` set zs"
      then obtain ys zs where e: "xs @ [x] = ys @ t # zs" and n: "k \<notin> uri ` set zs" by blast
      show "t = x"
      proof (cases zs rule: rev_cases)
        case Nil
        with e show ?thesis by simp
      next
        case (snoc zs' z)
        with e have "z = x" by (metis append_Cons append_assoc last_snoc)
        with snoc n True show ?thesis by simp
      qed
    next
      assume "t = x"
      with True show "\<exists>ys zs. xs @ [x] = ys @ t # zs \<and> uri t = k \<and> k \<notin> uri ` set zs"
        by (intro exI [of _ xs] exI [of _ "[]"]) simp
    qed
    with True show ?thesis by auto
  next
    case False
    have "(\<exists>ys zs. xs @ [x] = ys @ t # zs \<and> uri t = k \<and> k \<notin> uri ` set zs)
        \<longleftrightarrow> (\<exists>ys zs. xs = ys @ t # zs \<and> uri t = k \<and> k \<notin> uri ` set zs)"
    proof
      assume "\<exists>ys zs. xs @ [x] = ys @ t # zs \<and> uri t = k \<and> k \<notin> uri ` set zs"
      then obtain ys zs where e: "xs @ [x] = ys @ t # zs" and u: "uri t = k" and n: "k \<notin> uri ` set zs"
        by blast
      show "\<exists>ys zs. xs = ys @ t # zs \<and> uri t = k \<and> k \<notin> uri ` set zs"
      proof (cases zs rule: rev_cases)
        case Nil
        with e u False show ?thesis by simp
      next
        case (snoc zs' z)
        with e have "xs = ys @ t # zs'" by (metis append_Cons append_assoc butlast_snoc)
        with snoc u n show ?thesis by auto
      qed
    next
      assume "\<exists>ys zs. xs = ys @ t # zs \<and> uri t = k \<and> k \<notin> uri ` set zs"
      then obtain ys zs where "xs = ys @ t # zs" "uri t = k" "k \<notin> uri ` set zs" by blast
      with False show "\<exists>ys zs. xs @ [x] = ys @ t # zs \<and> uri t = k \<and> k \<notin> uri ` set zs"
        by (intro exI [of _ ys] exI [of _ "zs @ [x]"]) auto
    qed
    with False snoc show ?thesis by simp
  qed
qed

lemma uniqueByUri_keeps_last:
  "distinct (map uri (uniqueByUri tracks))
   \<and> (t \<in> set (uniqueByUri tracks)
        \<longleftrightarrow> (\<exists>ys zs. tracks = ys @ t # zs \<and> uri t \<notin> uri ` set zs))"
proof -
  let ?m = "foldl (\<lambda>m t. AList.update (uri t) t m) [] tracks"
  from uniqueByUri_map [of tracks] have d: "distinct (map fst ?m)"
    and m: "map_of ?m = map_of (rev (map (\<lambda>t. (uri t, t)) tracks))" by simp_all
  have mem: "(k, v) \<in> set ?m \<longleftrightarrow> (\<exists>ys zs. tracks = ys @ v # zs \<and> uri v = k \<and> k \<notin> uri ` set zs)" for k v
  proof -
    have "(k, v) \<in> set ?m \<longleftrightarrow> map_of ?m k = Some v"
      by (rule map_of_eq_Some_iff [OF d, symmetric])
    also have "\<dots> \<longleftrightarrow> map_of (rev (map (\<lambda>t. (uri t, t)) tracks)) k = Some v"
      by (simp only: m)
    also have "\<dots> \<longleftrightarrow> (\<exists>ys zs. tracks = ys @ v # zs \<and> uri v = k \<and> k \<notin> uri ` set zs)"
      by (rule map_of_rev_last)
    finally show ?thesis .
  qed
  then have key: "\<forall>p \<in> set ?m. fst p = uri (snd p)" by auto
  then have "map fst ?m = map uri (map snd ?m)" by (simp add: comp_def)
  with d have 1: "distinct (map uri (uniqueByUri tracks))" by (simp add: uniqueByUri_def)
  have "t \<in> set (uniqueByUri tracks) \<longleftrightarrow> (uri t, t) \<in> set ?m"
    using key by (force simp: uniqueByUri_def)
  with mem [of "uri t" t] 1 show ?thesis by simp
qed

text \<open>
  C7, as stated, fails: the first page of the history resolves with two events, the request
  for the second page is rejected, and the client raises that rejection instead of returning
  the two events.
\<close>

theorem getRecentlyPlayedTracks_raises_after_first_page:
  "fst (getRecentlyPlayedTracks exampleApi (startState secondPageFails)) = Inl (ApiError 2)
   \<and> LogRetrievedSoFar 2 \<in> set (console (snd (getRecentlyPlayedTracks exampleApi (startState secondPageFails))))"
  by code_simp

text \<open>
  The loop over the pages of the play history. When the host answers the successive
  requests with non-empty pages, and the accumulated events stay below 100 and the requests
  below 3, the loop goes on with the events of these pages accumulated and the cursor of the
  last page.
\<close>

lemma playedTracksOf_append [simp]:
  "playedTracksOf (xs @ ys) = playedTracksOf xs @ playedTracksOf ys"
  by (simp add: playedTracksOf_def List.map_filter_def)

lemma playedTracksOf_Nil [simp]: "playedTracksOf [] = []"
  by (simp add: playedTracksOf_def)

lemma playedLoop_pages:
  "historyAnswers A bt (world s) ps w' \<Longrightarrow> \<forall>p \<in> set ps. p \<noteq> []
   \<Longrightarrow> length (tracks @ playedTracksOf (concat ps)) < 100 \<Longrightarrow> rc + length ps < 3
   \<Longrightarrow> \<exists>s1. world s1 = w'
          \<and> playedLoop A bt True rc tracks s
              = playedLoop A (if ps = [] then bt else cursorAfter ps) True (rc + length ps)
                  (tracks @ playedTracksOf (concat ps)) s1"
proof (induction ps arbitrary: bt rc tracks s)
  case Nil
  then show ?case by (intro exI [of _ s]) simp
next
  case (Cons p ps)
  let ?s1 = "consoleLog (LogMakingRequest (Suc rc)) s"
  let ?c = "CRecentlyPlayed 50 (beforeOption bt)"
  obtain r w1 where g: "getMyRecentlyPlayedTracks A 50 (beforeOption bt) (world s) = (r, w1)"
    by (cases "getMyRecentlyPlayedTracks A 50 (beforeOption bt) (world s)")
  with Cons.prems(1) have r: "r = Inr p" and a: "historyAnswers A (played_at (last p)) w1 ps w'"
    by simp_all
  let ?s2 = "?s1\<lparr>world := w1, calls := calls ?s1 @ [?c]\<rparr>"
  let ?tr = "tracks @ playedTracksOf p"
  let ?s3 = "consoleLog (LogRetrievedSoFar (length ?tr)) ?s2"
  from Cons.prems(3) have l: "length ?tr < 100" and l0: "length tracks < 100"
    and l2: "length (?tr @ playedTracksOf (concat ps)) < 100"
    by simp_all
  from Cons.prems(2) have ne: "p \<noteq> []" and nes: "\<forall>p \<in> set ps. p \<noteq> []" by simp_all
  from Cons.prems(4) have rc: "rc < 3" and rc': "Suc rc + length ps < 3" by simp_all
  have q: "request ?c (getMyRecentlyPlayedTracks A 50 (beforeOption bt)) ?s1 = (Inr p, ?s2)"
    using g r by (simp add: request_def consoleLog_def)
  have step: "playedLoop A bt True rc tracks s = playedLoop A (played_at (last p)) True (Suc rc) ?tr ?s3"
    using l l0 rc ne q by (subst playedLoop.simps) (simp add: Let_def)
  have w3: "world ?s3 = w1" by (simp add: consoleLog_def)
  from a have a': "historyAnswers A (played_at (last p)) (world ?s3) ps w'"
    by (simp add: consoleLog_def)
  from Cons.IH [OF a' nes l2 rc'] obtain s4 where
    w4: "world s4 = w'"
    and run: "playedLoop A (played_at (last p)) True (Suc rc) ?tr ?s3
              = playedLoop A (if ps = [] then played_at (last p) else cursorAfter ps) True
                  (Suc rc + length ps) (?tr @ playedTracksOf (concat ps)) s4"
    by blast
  have c: "(if ps = [] then played_at (last p) else cursorAfter ps) = cursorAfter (p # ps)"
    by (simp add: cursorAfter_def)
  from step run w4 show ?case
    unfolding c by (intro exI [of _ s4]) simp
qed

lemma playedLoop_empty_page:
  assumes "length tracks < 100" and "rc < 3"
    and "fst (getMyRecentlyPlayedTracks A 50 (beforeOption bt) (world s)) = Inr []"
  shows "fst (playedLoop A bt True rc tracks s) = Inr tracks"
proof -
  from assms(3) obtain w' where r: "getMyRecentlyPlayedTracks A 50 (beforeOption bt) (world s) = (Inr [], w')"
    by (cases "getMyRecentlyPlayedTracks A 50 (beforeOption bt) (world s)") simp
  from assms(1,2) r show ?thesis
    by (subst playedLoop.simps) (simp add: request_def consoleLog_def)
qed

lemma playedLoop_rejected:
  assumes "length tracks < 100" and "rc < 3"
    and "fst (getMyRecentlyPlayedTracks A 50 (beforeOption bt) (world s)) = Inl e"
  shows "fst (playedLoop A bt True rc tracks s) = Inl e"
proof -
  from assms(3) obtain w' where r: "getMyRecentlyPlayedTracks A 50 (beforeOption bt) (world s) = (Inl e, w')"
    by (cases "getMyRecentlyPlayedTracks A 50 (beforeOption bt) (world s)") simp
  from assms(1,2) r show ?thesis
    by (subst playedLoop.simps) (simp add: request_def consoleLog_def)
qed

lemma uniqueByUri_events:
  "distinct (map uri (uniqueByUri tracks)) \<and> set (uniqueByUri tracks) \<subseteq> set tracks
   \<and> uri ` set (uniqueByUri tracks) = uri ` set tracks"
proof (intro conjI)
  show "distinct (map uri (uniqueByUri tracks))" using uniqueByUri_keeps_last by blast
  have mem: "t \<in> set (uniqueByUri tracks)
        \<longleftrightarrow> (\<exists>ys zs. tracks = ys @ t # zs \<and> uri t \<notin> uri ` set zs)" for t
    using uniqueByUri_keeps_last [of tracks t] by blast
  show sub: "set (uniqueByUri tracks) \<subseteq> set tracks"
  proof
    fix t assume "t \<in> set (uniqueByUri tracks)"
    with mem obtain ys zs where "tracks = ys @ t # zs" by blast
    then show "t \<in> set tracks" by simp
  qed
  show "uri ` set (uniqueByUri tracks) = uri ` set tracks"
  proof
    show "uri ` set (uniqueByUri tracks) \<subseteq> uri ` set tracks" using sub by blast
    show "uri ` set tracks \<subseteq> uri ` set (uniqueByUri tracks)"
    proof
      fix u assume "u \<in> uri ` set tracks"
      then have "\<exists>t \<in> set (rev tracks). uri t = u" by auto
      then obtain ys t zs where sp: "rev tracks = ys @ t # zs" and u: "uri t = u"
        and first: "\<forall>y \<in> set ys. uri y \<noteq> u"
        using split_list_first_prop [of "rev tracks" "\<lambda>t. uri t = u"] by blast
      from sp have "tracks = rev zs @ t # rev ys"
        by (metis append.assoc append_Cons append_Nil rev.simps(2) rev_append rev_rev_ident)
      moreover from first u have "uri t \<notin> uri ` set (rev ys)" by auto
      ultimately have "t \<in> set (uniqueByUri tracks)" using mem by blast
      with u show "u \<in> uri ` set (uniqueByUri tracks)" by blast
    qed
  qed
qed

lemma set_playedTracksOf:
  "set (playedTracksOf items)
     = {\<lparr>uri = u, playedAt = t\<rparr> | u t. \<exists>e \<in> set items. h_track e = Some u \<and> played_at e = Some t}"
proof (induction items)
  case Nil
  show ?case by (simp add: playedTracksOf_def)
next
  case (Cons e es)
  have "playedTracksOf (e # es)
      = (case h_track e of None \<Rightarrow> [] | Some u \<Rightarrow>
           (case played_at e of None \<Rightarrow> [] | Some t \<Rightarrow> [\<lparr>uri = u, playedAt = t\<rparr>]))
        @ playedTracksOf es"
    by (simp add: playedTracksOf_def split: option.splits)
  with Cons show ?case
    by (cases "h_track e"; cases "played_at e") auto
qed

lemma length_playedTracksOf:
  "length (playedTracksOf items) = length (filter (\<lambda>e. h_track e \<noteq> None \<and> played_at e \<noteq> None) items)"
  by (induction items) (auto simp: playedTracksOf_def List.map_filter_simps split: option.splits)

text \<open>
  C7, amended. The token being valid or refreshed, let the host answer the successive page
  requests of \<open>getRecentlyPlayedTracks\<close> with the non-empty pages \<open>ps\<close> (fewer than 3
  pages, fewer than 100 rows with a track and a play time in all). If it answers the next
  request with an empty page, the function returns the events of these pages deduplicated by
  URI: one event per URI played in the pages, each one an event of the pages. If it rejects
  the next request with an error, the function logs that error as its last line ("Error
  retrieving recently played tracks") and raises it again: the events of the pages are not
  returned.
\<close>

theorem getRecentlyPlayedTracks_partial:
  assumes token: "ensureAccessToken A s = (Inr (), s1)"
    and pages: "historyAnswers A None (world s1) ps w'"
    and nonempty: "\<forall>p \<in> set ps. p \<noteq> []"
    and below: "length (filter (\<lambda>e. h_track e \<noteq> None \<and> played_at e \<noteq> None) (concat ps)) < 100"
    and few: "length ps < 3"
  shows "(fst (getMyRecentlyPlayedTracks A 50 (beforeOption (cursorAfter ps)) w') = Inr []
            \<longrightarrow> fst (getRecentlyPlayedTracks A s) = Inr (uniqueByUri (playedTracksOf (concat ps)))
              \<and> distinct (map uri (uniqueByUri (playedTracksOf (concat ps))))
              \<and> set (uniqueByUri (playedTracksOf (concat ps)))
                  \<subseteq> {\<lparr>uri = u, playedAt = t\<rparr> | u t.
                        \<exists>e \<in> set (concat ps). h_track e = Some u \<and> played_at e = Some t}
              \<and> uri ` set (uniqueByUri (playedTracksOf (concat ps)))
                  = {u. \<exists>e \<in> set (concat ps). h_track e = Some u \<and> played_at e \<noteq> None})
       \<and> (fst (getMyRecentlyPlayedTracks A 50 (beforeOption (cursorAfter ps)) w') = Inl e
            \<longrightarrow> fst (getRecentlyPlayedTracks A s) = Inl e
              \<and> last (console (snd (getRecentlyPlayedTracks A s))) = ErrRetrievingRecentlyPlayed e)"
proof -
  let ?tr = "playedTracksOf (concat ps)"
  from below have l: "length ([] @ ?tr) < 100" by (simp add: length_playedTracksOf)
  from few have f: "0 + length ps < 3" by simp
  have c: "(if ps = [] then None else cursorAfter ps) = cursorAfter ps"
    by (simp add: cursorAfter_def)
  from playedLoop_pages [OF pages nonempty l f] obtain s2 where w2: "world s2 = w'"
    and run: "playedLoop A None True 0 [] s1 = playedLoop A (cursorAfter ps) True (length ps) ?tr s2"
    unfolding c by auto
  from l have l': "length ?tr < 100" by simp
  have ev: "set ?tr = {\<lparr>uri = u, playedAt = t\<rparr> | u t.
                        \<exists>e \<in> set (concat ps). h_track e = Some u \<and> played_at e = Some t}"
    by (rule set_playedTracksOf)
  have uris: "uri ` set ?tr = {u. \<exists>e \<in> set (concat ps). h_track e = Some u \<and> played_at e \<noteq> None}"
    unfolding ev by force
  show ?thesis
  proof (intro conjI impI)
    assume "fst (getMyRecentlyPlayedTracks A 50 (beforeOption (cursorAfter ps)) w') = Inr []"
    with playedLoop_empty_page [OF l' few, of A "cursorAfter ps" s2] w2
    have "fst (playedLoop A None True 0 [] s1) = Inr ?tr" by (simp add: run)
    then show "fst (getRecentlyPlayedTracks A s) = Inr (uniqueByUri ?tr)"
      by (cases "playedLoop A None True 0 [] s1") (simp add: getRecentlyPlayedTracks_def token Let_def)
    show "distinct (map uri (uniqueByUri ?tr))" using uniqueByUri_events by blast
    show "set (uniqueByUri ?tr) \<subseteq> {\<lparr>uri = u, playedAt = t\<rparr> | u t.
                        \<exists>e \<in> set (concat ps). h_track e = Some u \<and> played_at e = Some t}"
      using uniqueByUri_events [of ?tr] unfolding ev by blast
    show "uri ` set (uniqueByUri ?tr)
            = {u. \<exists>e \<in> set (concat ps). h_track e = Some u \<and> played_at e \<noteq> None}"
      using uniqueByUri_events [of ?tr] unfolding uris by blast
  next
    assume "fst (getMyRecentlyPlayedTracks A 50 (beforeOption (cursorAfter ps)) w') = Inl e"
    with playedLoop_rejected [OF l' few, of A "cursorAfter ps" s2] w2
    have r: "fst (playedLoop A None True 0 [] s1) = Inl e" by (simp add: run)
    then show "fst (getRecentlyPlayedTracks A s) = Inl e"
      by (cases "playedLoop A None True 0 [] s1") (simp add: getRecentlyPlayedTracks_def token Let_def)
    from r show "last (console (snd (getRecentlyPlayedTracks A s))) = ErrRetrievingRecentlyPlayed e"
      by (cases "playedLoop A None True 0 [] s1")
         (simp add: getRecentlyPlayedTracks_def token Let_def consoleLog_def)
  qed
qed

theorem getRecentlyPlayedTracks_partial_witness:
  "fst (getRecentlyPlayedTracks exampleApi (startState playedTwice))
     = Inr [\<lparr>uri = ''A'', playedAt = 999481600000\<rparr>]
   \<and> fst (getRecentlyPlayedTracks exampleApi (startState secondPageFails)) = Inl (ApiError 2)
   \<and> last (console (snd (getRecentlyPlayedTracks exampleApi (startState secondPageFails))))
       = ErrRetrievingRecentlyPlayed (ApiError 2)"
proof -
  let ?page = "[\<lparr>h_track = Some ''A'', played_at = Some 999913600000\<rparr>,
                \<lparr>h_track = Some ''A'', played_at = Some 999481600000\<rparr>]"
  let ?s1 = "\<lambda>w. snd (ensureAccessToken exampleApi (startState w))"
  let ?w' = "\<lambda>w. snd (getMyRecentlyPlayedTracks exampleApi 50 (beforeOption None) (world (?s1 w)))"
  have "fst (ensureAccessToken exampleApi (startState playedTwice)) = Inr ()" by code_simp
  then have t1: "ensureAccessToken exampleApi (startState playedTwice) = (Inr (), ?s1 playedTwice)"
    by (cases "ensureAccessToken exampleApi (startState playedTwice)") simp
  have "fst (ensureAccessToken exampleApi (startState secondPageFails)) = Inr ()" by code_simp
  then have t2: "ensureAccessToken exampleApi (startState secondPageFails) = (Inr (), ?s1 secondPageFails)"
    by (cases "ensureAccessToken exampleApi (startState secondPageFails)") simp
  have "fst (getMyRecentlyPlayedTracks exampleApi 50 (beforeOption None) (world (?s1 playedTwice))) = Inr ?page"
    by code_simp
  then have p1: "historyAnswers exampleApi None (world (?s1 playedTwice)) [?page] (?w' playedTwice)"
    by (simp add: split_beta)
  have "fst (getMyRecentlyPlayedTracks exampleApi 50 (beforeOption None) (world (?s1 secondPageFails))) = Inr ?page"
    by code_simp
  then have p2: "historyAnswers exampleApi None (world (?s1 secondPageFails)) [?page] (?w' secondPageFails)"
    by (simp add: split_beta)
  have ne: "\<forall>p \<in> set [?page]. p \<noteq> []" by simp
  have b: "length (filter (\<lambda>e. h_track e \<noteq> None \<and> played_at e \<noteq> None) (concat [?page])) < 100" by simp
  have f: "length [?page] < 3" by simp
  have n1: "fst (getMyRecentlyPlayedTracks exampleApi 50 (beforeOption (cursorAfter [?page])) (?w' playedTwice)) = Inr []"
    by code_simp
  have n2: "fst (getMyRecentlyPlayedTracks exampleApi 50 (beforeOption (cursorAfter [?page])) (?w' secondPageFails))
              = Inl (ApiError 2)"
    by code_simp
  have u: "uniqueByUri (playedTracksOf (concat [?page])) = [\<lparr>uri = ''A'', playedAt = 999481600000\<rparr>]"
    by code_simp
  from getRecentlyPlayedTracks_partial [OF t1 p1 ne b f] n1
  have a: "fst (getRecentlyPlayedTracks exampleApi (startState playedTwice))
     = Inr [\<lparr>uri = ''A'', playedAt = 999481600000\<rparr>]"
    unfolding u by blast
  from getRecentlyPlayedTracks_partial [OF t2 p2 ne b f, of "ApiError 2"] n2
  have c: "fst (getRecentlyPlayedTracks exampleApi (startState secondPageFails)) = Inl (ApiError 2)
   \<and> last (console (snd (getRecentlyPlayedTracks exampleApi (startState secondPageFails))))
       = ErrRetrievingRecentlyPlayed (ApiError 2)"
    by blast
  from a c show ?thesis by simp
qed

subsection \<open>Pagination\<close>

lemma sourceRows_append:
  "sourceRows off (xs @ ys) = sourceRows off xs @ sourceRows (off + length xs) ys"
  by (simp add: sourceRows_def List.map_filter_def)

lemma mirrorRows_append:
  "mirrorRows off (xs @ ys) = mirrorRows off xs @ mirrorRows (off + length xs) ys"
  by (simp add: mirrorRows_def List.map_filter_def enumerate_append_eq)

lemma upt_calls:
  "f 0 # map (\<lambda>j. f (Suc j)) [0..<n] = map f [0..<Suc n]"
  by (simp only: map_upt_Suc)

lemma fetchAllPages_pages:
  assumes push: "\<And>off xs ys. push off (xs @ ys) = push off xs @ push (off + length xs) ys"
  shows "answers A pid offset (world s) (fulls @ [lastPage]) \<Longrightarrow> \<forall>p\<in>set fulls. length p = 100
    \<Longrightarrow> length lastPage \<noteq> 100
    \<Longrightarrow> \<exists>s'. fetchAllPages A pid push offset tracks s
              = Some (Inr (tracks @ push offset (concat (fulls @ [lastPage]))), s')
          \<and> calls s' = calls s @ map (\<lambda>j. CGetTracks pid (offset + 100 * j) 100) [0..<Suc (length fulls)]"
proof (induction fulls arbitrary: offset tracks s)
  case Nil
  then show ?case
    by (subst fetchAllPages.simps) (auto simp: request_def split: prod.splits)
next
  case (Cons p ps)
  obtain r w' where g: "getPlaylistTracks A pid offset 100 (world s) = (r, w')"
    by (cases "getPlaylistTracks A pid offset 100 (world s)")
  with Cons.prems have r: "r = Inr p" and a: "answers A pid (offset + 100) w' (ps @ [lastPage])"
    by simp_all
  from Cons.prems have len: "length p = 100" and full: "\<forall>p\<in>set ps. length p = 100"
    by simp_all
  let ?s1 = "s\<lparr>world := w', calls := calls s @ [CGetTracks pid offset 100]\<rparr>"
  from a have a': "answers A pid (offset + 100) (world ?s1) (ps @ [lastPage])" by simp
  from Cons.IH [OF a' full Cons.prems(3), of "tracks @ push offset p"]
  obtain s' where
    run: "fetchAllPages A pid push (offset + 100) (tracks @ push offset p) ?s1
            = Some (Inr ((tracks @ push offset p) @ push (offset + 100) (concat (ps @ [lastPage]))), s')"
    and c: "calls s' = calls ?s1 @ map (\<lambda>j. CGetTracks pid (offset + 100 + 100 * j) 100) [0..<Suc (length ps)]"
    by blast
  have "fetchAllPages A pid push offset tracks s
          = fetchAllPages A pid push (offset + 100) (tracks @ push offset p) ?s1"
    by (subst fetchAllPages.simps) (simp add: request_def g r len)
  moreover have "push offset (concat ((p # ps) @ [lastPage]))
          = push offset p @ push (offset + 100) (concat (ps @ [lastPage]))"
    using push [of offset p] len by simp
  moreover have "calls s' = calls s @ map (\<lambda>j. CGetTracks pid (offset + 100 * j) 100) [0..<Suc (length (p # ps))]"
    using c upt_calls [of "\<lambda>j. CGetTracks pid (offset + 100 * j) 100" "Suc (length ps)"]
    by (simp del: upt_Suc map_upt_Suc add: add.assoc)
  ultimately show ?case using run by simp
qed

lemma endless_step:
  assumes e: "\<forall>n. \<exists>ps. length ps = n \<and> answers A pid offset w ps \<and> (\<forall>p\<in>set ps. length p = 100)"
    and g: "getPlaylistTracks A pid offset 100 w = (r, w')"
  shows "(\<exists>p. r = Inr p \<and> length p = 100)
       \<and> (\<forall>n. \<exists>ps. length ps = n \<and> answers A pid (offset + 100) w' ps \<and> (\<forall>p\<in>set ps. length p = 100))"
proof
  from e obtain ps where "length ps = Suc 0" "answers A pid offset w ps" "\<forall>p\<in>set ps. length p = 100"
    by blast
  then show "\<exists>p. r = Inr p \<and> length p = 100"
    using g by (cases ps) auto
  show "\<forall>n. \<exists>ps. length ps = n \<and> answers A pid (offset + 100) w' ps \<and> (\<forall>p\<in>set ps. length p = 100)"
  proof
    fix n
    from e obtain ps where "length ps = Suc n" "answers A pid offset w ps" "\<forall>p\<in>set ps. length p = 100"
      by blast
    then show "\<exists>ps. length ps = n \<and> answers A pid (offset + 100) w' ps \<and> (\<forall>p\<in>set ps. length p = 100)"
      using g by (cases ps) auto
  qed
qed

lemma fetchAllPages_Some_not_endless:
  assumes some: "fetchAllPages A pid push offset tracks s = Some y"
  shows "\<not> (\<forall>n. \<exists>ps. length ps = n \<and> answers A pid offset (world s) ps \<and> (\<forall>p\<in>set ps. length p = 100))"
  apply (rule fetchAllPages.raw_induct
    [where P = "\<lambda>A pid push offset tracks s y.
        \<not> (\<forall>n. \<exists>ps. length ps = n \<and> answers A pid offset (world s) ps \<and> (\<forall>p\<in>set ps. length p = 100))",
      OF _ some])
  subgoal premises prems for f A pid push offset tracks s y
  proof
    assume e: "\<forall>n. \<exists>ps. length ps = n \<and> answers A pid offset (world s) ps \<and> (\<forall>p\<in>set ps. length p = 100)"
    obtain r w' where g: "getPlaylistTracks A pid offset 100 (world s) = (r, w')"
      by (cases "getPlaylistTracks A pid offset 100 (world s)")
    from endless_step [OF e g] obtain p where r: "r = Inr p" and len: "length p = 100"
      and e': "\<forall>n. \<exists>ps. length ps = n \<and> answers A pid (offset + 100) w' ps \<and> (\<forall>p\<in>set ps. length p = 100)"
      by blast
    let ?s1 = "s\<lparr>world := w', calls := calls s @ [CGetTracks pid offset 100]\<rparr>"
    from prems(2) g r len have "f A pid push (offset + 100) (tracks @ push offset p) ?s1 = Some y"
      by (simp add: request_def)
    from prems(1) [OF this] e' show False by simp
  qed
  done


lemma fetchAllPages_endless:
  assumes "\<forall>n. \<exists>ps. length ps = n \<and> answers A pid offset (world s) ps \<and> (\<forall>p\<in>set ps. length p = 100)"
  shows "fetchAllPages A pid push offset tracks s = None"
proof (cases "fetchAllPages A pid push offset tracks s")
  case (Some y)
  from fetchAllPages_Some_not_endless [OF Some] assms show ?thesis by blast
qed simp

lemma sourceRows_explicit:
  "sourceRows off rows
     = map (\<lambda>row. \<lparr>uri = the (track row), addedAt = added_at row\<rparr>)
         (filter (\<lambda>row. track row \<noteq> None) rows)"
  by (induction rows) (auto simp: sourceRows_def split: option.splits)

lemma mirrorRows_explicit:
  "mirrorRows off rows
     = map (\<lambda>(i, row). \<lparr>uri = the (track row), position = i\<rparr>)
         (filter (\<lambda>(i, row). track row \<noteq> None \<and> track row \<noteq> Some []) (enumerate off rows))"
  by (induction rows arbitrary: off) (auto simp: mirrorRows_def split: option.splits)

text \<open>
  C10, as stated, fails for the mirror: the loop of \<open>getMirrorPlaylistTracks\<close> pushes a
  row only when its track is non-null and the URI of the track is non-empty
  (\<open>if (track && track.uri)\<close>). For a mirror playlist whose rows carry no track, a track
  with the empty URI, and track C, it returns C alone, at position 2; the track with the
  empty URI is not null and is not returned. The loop of \<open>getSourcePlaylistTracks\<close> on the
  same rows returns both tracks.
\<close>

theorem mirror_loop_drops_empty_uri:
  "map_option (map track) (sp_playlists oddRows ''mir'') = Some [None, Some [], Some ''C'']
   \<and> map_option fst (getMirrorPlaylistTracks exampleApi (startState oddRows))
       = Some (Inr [\<lparr>uri = ''C'', position = 2\<rparr>])
   \<and> map_option fst (getSourcePlaylistTracks exampleApi (startState oddRows))
       = Some (Inr [\<lparr>uri = [], addedAt = 999740800000\<rparr>, \<lparr>uri = ''C'', addedAt = 999827200000\<rparr>])"
  by code_simp

text \<open>
  C10, amended. The loops of \<open>getSourcePlaylistTracks\<close> and \<open>getMirrorPlaylistTracks\<close> are
  \<open>fetchAllPages\<close> from offset 0 with \<open>sourceRows\<close> and with \<open>mirrorRows\<close>. When the host
  answers the successive requests with pages of exactly 100 rows and then with a page of
  another length (fewer than 100, for a host that respects the limit), the loop ends after
  one request per page, the last page included and no more. The source loop returns, in
  page order, the track and the time of adding of every row whose track is not null; the
  mirror loop returns, in page order, the track of every row whose track is not null and
  has a non-empty URI, with the index of the row in the playlist as its position. So a
  playlist of 100 k rows costs k + 1 requests, the last one answered by the empty page.
  When the host answers every request with a page of exactly 100 rows, the loops do not
  return.
\<close>

theorem pagination_loops:
  "(answers A playlistId 0 (world s) (fullPages @ [lastPage])
      \<and> (\<forall>p \<in> set fullPages. length p = 100) \<and> length lastPage \<noteq> 100
    \<longrightarrow> (\<exists>s'. fetchAllPages A playlistId sourceRows 0 [] s
                  = Some (Inr (map (\<lambda>row. \<lparr>uri = the (track row), addedAt = added_at row\<rparr>)
                                 (filter (\<lambda>row. track row \<noteq> None) (concat (fullPages @ [lastPage])))),
                          s')
              \<and> calls s' = calls s @ map (\<lambda>j. CGetTracks playlistId (100 * j) 100)
                                        [0..<Suc (length fullPages)])
      \<and> (\<exists>s'. fetchAllPages A playlistId mirrorRows 0 [] s
                  = Some (Inr (map (\<lambda>(i, row). \<lparr>uri = the (track row), position = i\<rparr>)
                                 (filter (\<lambda>(i, row). track row \<noteq> None \<and> track row \<noteq> Some [])
                                    (enumerate 0 (concat (fullPages @ [lastPage]))))),
                          s')
              \<and> calls s' = calls s @ map (\<lambda>j. CGetTracks playlistId (100 * j) 100)
                                        [0..<Suc (length fullPages)]))
   \<and> ((\<forall>n. \<exists>ps. length ps = n \<and> answers A playlistId 0 (world s) ps
                 \<and> (\<forall>p \<in> set ps. length p = 100))
    \<longrightarrow> fetchAllPages A playlistId sourceRows 0 [] s = None
      \<and> fetchAllPages A playlistId mirrorRows 0 [] s = None)"
proof (intro conjI impI)
  assume h: "answers A playlistId 0 (world s) (fullPages @ [lastPage])
      \<and> (\<forall>p \<in> set fullPages. length p = 100) \<and> length lastPage \<noteq> 100"
  from h fetchAllPages_pages [of sourceRows A playlistId 0 s fullPages lastPage "[]", OF sourceRows_append]
  show "\<exists>s'. fetchAllPages A playlistId sourceRows 0 [] s
                  = Some (Inr (map (\<lambda>row. \<lparr>uri = the (track row), addedAt = added_at row\<rparr>)
                                 (filter (\<lambda>row. track row \<noteq> None) (concat (fullPages @ [lastPage])))),
                          s')
              \<and> calls s' = calls s @ map (\<lambda>j. CGetTracks playlistId (100 * j) 100)
                                        [0..<Suc (length fullPages)]"
    unfolding sourceRows_explicit [of 0] by simp
  from h fetchAllPages_pages [of mirrorRows A playlistId 0 s fullPages lastPage "[]", OF mirrorRows_append]
  show "\<exists>s'. fetchAllPages A playlistId mirrorRows 0 [] s
                  = Some (Inr (map (\<lambda>(i, row). \<lparr>uri = the (track row), position = i\<rparr>)
                                 (filter (\<lambda>(i, row). track row \<noteq> None \<and> track row \<noteq> Some [])
                                    (enumerate 0 (concat (fullPages @ [lastPage]))))),
                          s')
              \<and> calls s' = calls s @ map (\<lambda>j. CGetTracks playlistId (100 * j) 100)
                                        [0..<Suc (length fullPages)]"
    unfolding mirrorRows_explicit [of 0] by simp
next
  assume "\<forall>n. \<exists>ps. length ps = n \<and> answers A playlistId 0 (world s) ps
                 \<and> (\<forall>p \<in> set ps. length p = 100)"
  then show "fetchAllPages A playlistId sourceRows 0 [] s = None"
    by (rule fetchAllPages_endless)
next
  assume "\<forall>n. \<exists>ps. length ps = n \<and> answers A playlistId 0 (world s) ps
                 \<and> (\<forall>p \<in> set ps. length p = 100)"
  then show "fetchAllPages A playlistId mirrorRows 0 [] s = None"
    by (rule fetchAllPages_endless)
qed

lemma answers_endlessApi:
  "answers endlessApi p offset w
     (replicate n (replicate 100 \<lparr>added_at = 999913600000, track = Some ''A''\<rparr>))"
  by (induction n arbitrary: offset) (simp_all add: endlessApi_def)

theorem pagination_loops_witness:
  "(\<exists>s'. fetchAllPages exampleApi ''src'' sourceRows 0 [] (startState hundredRows)
            = Some (Inr (replicate 100 \<lparr>uri = ''A'', addedAt = 999913600000\<rparr>), s')
        \<and> calls s' = [CGetTracks ''src'' 0 100, CGetTracks ''src'' 100 100])
   \<and> (\<exists>s'. fetchAllPages exampleApi ''src'' mirrorRows 0 [] (startState hundredRows)
            = Some (Inr (map (\<lambda>i. \<lparr>uri = ''A'', position = i\<rparr>) [0..<100]), s')
        \<and> calls s' = [CGetTracks ''src'' 0 100, CGetTracks ''src'' 100 100])
   \<and> (\<exists>s'. fetchAllPages exampleApi ''src'' sourceRows 0 [] (startState oddRows)
            = Some (Inr [\<lparr>uri = [], addedAt = 999740800000\<rparr>, \<lparr>uri = ''C'', addedAt = 999827200000\<rparr>], s')
        \<and> calls s' = [CGetTracks ''src'' 0 100])
   \<and> (\<exists>s'. fetchAllPages exampleApi ''src'' mirrorRows 0 [] (startState oddRows)
            = Some (Inr [\<lparr>uri = ''C'', position = 2\<rparr>], s')
        \<and> calls s' = [CGetTracks ''src'' 0 100])
   \<and> fetchAllPages endlessApi ''src'' sourceRows 0 [] (startState ()) = None
   \<and> fetchAllPages endlessApi ''src'' mirrorRows 0 [] (startState ()) = None"
proof -
  let ?row = "\<lparr>added_at = 999913600000, track = Some ''A''\<rparr>"
  let ?odd = "[\<lparr>added_at = 999740800000, track = None\<rparr>,
               \<lparr>added_at = 999740800000, track = Some []\<rparr>,
               \<lparr>added_at = 999827200000, track = Some ''C''\<rparr>]"
  have a: "answers exampleApi ''src'' 0 (world (startState hundredRows)) ([replicate 100 ?row] @ [[]])"
    by code_simp
  have f: "\<forall>p \<in> set [replicate 100 ?row]. length p = 100" by simp
  have l: "length ([] :: playlist_item list) \<noteq> 100" by simp
  have a2: "answers exampleApi ''src'' 0 (world (startState oddRows)) ([] @ [?odd])"
    by code_simp
  have f2: "\<forall>p \<in> set ([] :: playlist_item list list). length p = 100" by simp
  have l2: "length ?odd \<noteq> 100" by simp
  have e: "\<forall>n. \<exists>ps. length ps = n \<and> answers endlessApi ''src'' 0 (world (startState ())) ps
                 \<and> (\<forall>p \<in> set ps. length p = 100)"
  proof
    fix n
    show "\<exists>ps. length ps = n \<and> answers endlessApi ''src'' 0 (world (startState ())) ps
                 \<and> (\<forall>p \<in> set ps. length p = 100)"
      using answers_endlessApi [of "''src''" 0 "world (startState ())" n]
      by (intro exI [of _ "replicate n (replicate 100 ?row)"]) simp
  qed
  have c: "map (\<lambda>j. CGetTracks ''src'' (100 * j) 100) [0..<Suc (length [replicate 100 ?row])]
             = [CGetTracks ''src'' 0 100, CGetTracks ''src'' 100 100]"
    by simp
  have c2: "map (\<lambda>j. CGetTracks ''src'' (100 * j) 100) [0..<Suc (length ([] :: playlist_item list list))]
             = [CGetTracks ''src'' 0 100]"
    by simp
  have n: "calls (startState hundredRows) = []" "calls (startState oddRows) = []"
    by (simp_all add: startState_def)
  have r1: "map (\<lambda>row. \<lparr>uri = the (track row), addedAt = added_at row\<rparr>)
              (filter (\<lambda>row. track row \<noteq> None) (concat ([replicate 100 ?row] @ [[]])))
            = replicate 100 \<lparr>uri = ''A'', addedAt = 999913600000\<rparr>"
    by simp
  have r2: "map (\<lambda>(i, row). \<lparr>uri = the (track row), position = i\<rparr>)
              (filter (\<lambda>(i, row). track row \<noteq> None \<and> track row \<noteq> Some [])
                 (enumerate 0 (concat ([replicate 100 ?row] @ [[]]))))
            = map (\<lambda>i. \<lparr>uri = ''A'', position = i\<rparr>) [0..<100]"
    by code_simp
  have r3: "map (\<lambda>row. \<lparr>uri = the (track row), addedAt = added_at row\<rparr>)
              (filter (\<lambda>row. track row \<noteq> None) (concat [?odd]))
            = [\<lparr>uri = [], addedAt = 999740800000\<rparr>, \<lparr>uri = ''C'', addedAt = 999827200000\<rparr>]"
    by simp
  have r4: "map (\<lambda>(i, row). \<lparr>uri = the (track row), position = i\<rparr>)
              (filter (\<lambda>(i, row). track row \<noteq> None \<and> track row \<noteq> Some [])
                 (enumerate 0 (concat [?odd])))
            = [\<lparr>uri = ''C'', position = 2\<rparr>]"
    by (simp add: numeral_2_eq_2)
  from pagination_loops [of exampleApi "''src''" "startState hundredRows" "[replicate 100 ?row]" "[]"]
       a f l
  have t: "(\<exists>s'. fetchAllPages exampleApi ''src'' sourceRows 0 [] (startState hundredRows)
            = Some (Inr (replicate 100 \<lparr>uri = ''A'', addedAt = 999913600000\<rparr>), s')
        \<and> calls s' = [CGetTracks ''src'' 0 100, CGetTracks ''src'' 100 100])
     \<and> (\<exists>s'. fetchAllPages exampleApi ''src'' mirrorRows 0 [] (startState hundredRows)
            = Some (Inr (map (\<lambda>i. \<lparr>uri = ''A'', position = i\<rparr>) [0..<100]), s')
        \<and> calls s' = [CGetTracks ''src'' 0 100, CGetTracks ''src'' 100 100])"
    unfolding r1 r2 c n append_Nil by blast
  from pagination_loops [of exampleApi "''src''" "startState oddRows" "[]" ?odd]
       a2 f2 l2
  have t2: "(\<exists>s'. fetchAllPages exampleApi ''src'' sourceRows 0 [] (startState oddRows)
            = Some (Inr [\<lparr>uri = [], addedAt = 999740800000\<rparr>, \<lparr>uri = ''C'', addedAt = 999827200000\<rparr>], s')
        \<and> calls s' = [CGetTracks ''src'' 0 100])
     \<and> (\<exists>s'. fetchAllPages exampleApi ''src'' mirrorRows 0 [] (startState oddRows)
            = Some (Inr [\<lparr>uri = ''C'', position = 2\<rparr>], s')
        \<and> calls s' = [CGetTracks ''src'' 0 100])"
    unfolding c2 n append_Nil r3 r4 by blast
  from pagination_loops [of endlessApi "''src''" "startState ()"] e
  have d: "fetchAllPages endlessApi ''src'' sourceRows 0 [] (startState ()) = None
      \<and> fetchAllPages endlessApi ''src'' mirrorRows 0 [] (startState ()) = None"
    by blast
  from t t2 d show ?thesis by blast
qed

subsection \<open>The read phase\<close>

lemma readStep_refl [simp]: "readStep obs s s"
  by (simp add: readStep_def)

lemma readStep_trans: "readStep obs s s' \<Longrightarrow> readStep obs s' s'' \<Longrightarrow> readStep obs s s''"
  by (auto simp: readStep_def)

lemma readStep_consoleLog: "readStep obs s s' \<Longrightarrow> readStep obs s (consoleLog m s')"
  by (auto simp: readStep_def consoleLog_def writes_def)

lemma readStep_consoleLog_left: "readStep obs (consoleLog m s) s' \<Longrightarrow> readStep obs s s'"
  by (auto simp: readStep_def consoleLog_def writes_def dest: append_prefixD)

lemma readStep_world:
  "readStep obs s s' \<Longrightarrow> obs w = obs (world s') \<Longrightarrow> readStep obs s (s'\<lparr>world := w\<rparr>)"
  by (simp add: readStep_def writes_def)

lemma readStep_request:
  "\<not> isWrite c \<Longrightarrow> (\<And>w. obs (snd (f w)) = obs w) \<Longrightarrow> request c f s = (r, s') \<Longrightarrow> readStep obs s s'"
  by (auto simp: request_def readStep_def writes_def split: prod.splits) (metis snd_conv)

lemma readsPreserveD:
  assumes "readsPreserve A obs"
  shows "obs (snd (dateNow A w)) = obs w"
    and "obs (snd (refreshAccessToken A w)) = obs w"
    and "obs (setAccessToken A t w) = obs w"
    and "obs (snd (getPlaylistTracks A p offset limit w)) = obs w"
    and "obs (snd (getMyRecentlyPlayedTracks A limit before w)) = obs w"
  using assms unfolding readsPreserve_def by blast+

lemma readStep_ensureAccessToken:
  assumes "readsPreserve A obs" and "ensureAccessToken A s = (r, s')"
  shows "readStep obs s s'"
proof -
  obtain ms w1 where d: "dateNow A (world s) = (ms, w1)" by (cases "dateNow A (world s)")
  with assms(1) have o1: "obs w1 = obs (world s)"
    by (metis readsPreserve_def snd_conv)
  obtain r2 w2 where f: "refreshAccessToken A w1 = (r2, w2)" by (cases "refreshAccessToken A w1")
  with assms(1) have o2: "obs w2 = obs w1"
    by (metis readsPreserve_def snd_conv)
  from assms(1) have o3: "\<And>t. obs (setAccessToken A t w2) = obs w2"
    by (simp add: readsPreserve_def)
  from assms(2) show ?thesis
    by (auto simp: ensureAccessToken_def d f request_def Let_def readStep_def writes_def consoleLog_def
          o1 o2 o3 split: if_splits sum.splits)
qed

lemma filterW_obs:
  assumes "\<And>x w. obs (snd (p x w)) = obs w"
  shows "obs (snd (filterW p xs w)) = obs w"
proof (induction xs arbitrary: w)
  case (Cons x xs)
  obtain b w1 where p: "p x w = (b, w1)" by (cases "p x w")
  with assms [of x w] have "obs w1 = obs w" by simp
  with Cons [of w1] p show ?case
    by (auto split: prod.splits)
qed simp

lemma isAddedWithinLastYear_obs:
  "readsPreserve A obs \<Longrightarrow> obs (snd (isAddedWithinLastYear A t w)) = obs w"
  by (auto simp: isAddedWithinLastYear_def readsPreserve_def split: prod.splits) (metis snd_conv)

lemma isPlayedRecentlyWithinLockPeriod_obs:
  "readsPreserve A obs \<Longrightarrow> obs (snd (isPlayedRecentlyWithinLockPeriod A t w)) = obs w"
  by (auto simp: isPlayedRecentlyWithinLockPeriod_def readsPreserve_def split: prod.splits) (metis snd_conv)

lemma readStep_withinLastYear:
  assumes "readsPreserve A obs"
  shows "readStep obs s (snd (withinLastYear A src s))"
proof -
  have "obs (snd (filterW (\<lambda>t. isAddedWithinLastYear A (addedAt t)) src (world s))) = obs (world s)"
    by (rule filterW_obs) (rule isAddedWithinLastYear_obs [OF assms])
  then show ?thesis
    by (auto simp: withinLastYear_def Let_def consoleLog_def readStep_def writes_def split: prod.splits)
qed

lemma readStep_lockedUris:
  assumes "readsPreserve A obs"
  shows "readStep obs s (snd (lockedUris A played s))"
proof -
  have "obs (snd (filterW (\<lambda>t. isPlayedRecentlyWithinLockPeriod A (playedAt t)) played (world s))) = obs (world s)"
    by (rule filterW_obs) (rule isPlayedRecentlyWithinLockPeriod_obs [OF assms])
  then show ?thesis
    by (auto simp: lockedUris_def Let_def consoleLog_def readStep_def writes_def split: prod.splits)
qed

lemma readStep_playedLoop:
  "readsPreserve A obs \<Longrightarrow> readStep obs s (snd (playedLoop A b m n tracks s))"
proof (induction A b m n tracks s rule: playedLoop.induct)
  case (1 A b m n tracks s)
  note assms = "1.prems"
  show ?case
  proof (cases "m \<and> length tracks < 100 \<and> n < 3")
    case False
    then show ?thesis by simp
  next
    case True
    let ?s1 = "consoleLog (LogMakingRequest (Suc n)) s"
    obtain r s2 where q: "request (CRecentlyPlayed 50 (beforeOption b))
        (getMyRecentlyPlayedTracks A 50 (beforeOption b)) ?s1 = (r, s2)"
      by (cases "request (CRecentlyPlayed 50 (beforeOption b))
        (getMyRecentlyPlayedTracks A 50 (beforeOption b)) ?s1")
    have "readStep obs ?s1 s2"
      by (intro readStep_request [OF _ _ q]) (simp_all add: readsPreserveD [OF assms])
    moreover have "readStep obs s ?s1"
      by (intro readStep_consoleLog readStep_refl)
    ultimately have s2: "readStep obs s s2" by (rule readStep_trans [rotated])
    show ?thesis
    proof (cases r)
      case (Inl e)
      with True q s2 show ?thesis
        by (subst playedLoop.simps) (simp add: Let_def)
    next
      case (Inr items)
      note IH = "1.IH" [OF True refl refl q [symmetric] Inr]
      show ?thesis
      proof (cases "length items = 0")
        case z: True
        from IH(1) [OF z assms] have "readStep obs s2 (snd (playedLoop A b False (Suc n) tracks s2))" .
        with s2 have "readStep obs s (snd (playedLoop A b False (Suc n) tracks s2))"
          by (rule readStep_trans)
        with True q Inr z show ?thesis
          by (subst playedLoop.simps) (simp add: Let_def)
      next
        case nz: False
        let ?t = "tracks @ playedTracksOf items"
        let ?s3 = "consoleLog (LogRetrievedSoFar (length ?t)) s2"
        have s3: "readStep obs s ?s3"
          by (intro readStep_consoleLog s2)
        show ?thesis
        proof (cases "length items > 0 \<and> length ?t < 100")
          case c: True
          from IH(2) [OF nz refl refl c assms] s3
          have "readStep obs s (snd (playedLoop A (played_at (last items)) m (Suc n) ?t ?s3))"
            by (rule readStep_trans [rotated])
          with True q Inr nz c show ?thesis
            by (subst playedLoop.simps) (simp add: Let_def)
        next
          case c: False
          from IH(3) [OF nz refl refl c assms] s3
          have "readStep obs s (snd (playedLoop A b False (Suc n) ?t ?s3))"
            by (rule readStep_trans [rotated])
          with True q Inr nz c show ?thesis
            by (subst playedLoop.simps) (simp add: Let_def)
        qed
      qed
    qed
  qed
qed

lemma readStep_getRecentlyPlayedTracks:
  assumes "readsPreserve A obs"
  shows "readStep obs s (snd (getRecentlyPlayedTracks A s))"
proof -
  obtain r s1 where t: "ensureAccessToken A s = (r, s1)" by (cases "ensureAccessToken A s")
  have 1: "readStep obs s s1" by (rule readStep_ensureAccessToken [OF assms t])
  obtain r2 s2 where l: "playedLoop A None True 0 [] s1 = (r2, s2)"
    by (cases "playedLoop A None True 0 [] s1")
  from readStep_playedLoop [OF assms, of s1 None True 0 "[]"] l have "readStep obs s1 s2" by simp
  with 1 have "readStep obs s s2" by (rule readStep_trans)
  with 1 t l show ?thesis
    by (auto simp: getRecentlyPlayedTracks_def Let_def intro: readStep_consoleLog split: sum.splits)
qed

lemma readStep_fetchAllPages:
  assumes some: "fetchAllPages A pid push offset tracks s = Some (r, s')"
    and pres: "readsPreserve A obs"
  shows "readStep obs s s'"
proof -
  have "readsPreserve A obs \<longrightarrow> readStep obs s (snd (r, s'))"
    apply (rule fetchAllPages.raw_induct
      [where P = "\<lambda>A pid push offset tracks s y. readsPreserve A obs \<longrightarrow> readStep obs s (snd y)",
        OF _ some])
    subgoal premises prems for f A pid push offset tracks s y
    proof
      assume pres: "readsPreserve A obs"
      obtain r1 s1 where q: "request (CGetTracks pid offset 100) (getPlaylistTracks A pid offset 100) s = (r1, s1)"
        by (cases "request (CGetTracks pid offset 100) (getPlaylistTracks A pid offset 100) s")
      have 1: "readStep obs s s1"
        by (intro readStep_request [OF _ _ q]) (simp_all add: readsPreserveD [OF pres])
      show "readStep obs s (snd y)"
      proof (cases r1)
        case (Inl e)
        with prems(2) q 1 show ?thesis by auto
      next
        case (Inr items)
        show ?thesis
        proof (cases "length items = 100")
          case True
          with prems(2) q Inr have "f A pid push (offset + 100) (tracks @ push offset items) s1 = Some y"
            by simp
          from prems(1) [OF this] pres have "readStep obs s1 (snd y)" by simp
          with 1 show ?thesis by (rule readStep_trans)
        next
          case False
          with prems(2) q Inr 1 show ?thesis by auto
        qed
      qed
    qed
    done
  with pres show ?thesis by simp
qed

lemma readStep_getSourcePlaylistTracks:
  assumes "getSourcePlaylistTracks A s = Some (r, s')" and "readsPreserve A obs"
  shows "readStep obs s s'"
proof -
  obtain r1 s1 where t: "ensureAccessToken A s = (r1, s1)" by (cases "ensureAccessToken A s")
  have 1: "readStep obs s s1" by (rule readStep_ensureAccessToken [OF assms(2) t])
  from assms(1) t 1 show ?thesis
    by (auto simp: getSourcePlaylistTracks_def split: sum.splits
          intro: readStep_trans [OF 1 readStep_fetchAllPages [OF _ assms(2)]])
qed

lemma readStep_getMirrorPlaylistTracks:
  assumes "getMirrorPlaylistTracks A s = Some (r, s')" and "readsPreserve A obs"
  shows "readStep obs s s'"
proof -
  obtain r1 s1 where t: "ensureAccessToken A s = (r1, s1)" by (cases "ensureAccessToken A s")
  have 1: "readStep obs s s1" by (rule readStep_ensureAccessToken [OF assms(2) t])
  from assms(1) t 1 show ?thesis
    by (auto simp: getMirrorPlaylistTracks_def split: sum.splits
          intro: readStep_trans [OF 1 readStep_fetchAllPages [OF _ assms(2)]])
qed

lemma andThen_Some:
  "andThen m f = Some y \<longleftrightarrow>
     (\<exists>e s. m = Some (Inl e, s) \<and> y = (Inl e, s)) \<or> (\<exists>a s. m = Some (Inr a, s) \<and> f a s = Some y)"
  by (auto simp: andThen_def split: option.splits sum.splits)

lemma readStep_fetchPhase:
  assumes "fetchPhase A s = Some (r, s')" and pres: "readsPreserve A obs"
  shows "readStep obs s s'"
proof -
  note tr = readStep_trans
  from assms(1) show ?thesis
    unfolding fetchPhase_def andThen_Some
  proof (elim disjE exE conjE)
    fix e s1 assume "getSourcePlaylistTracks A s = Some (Inl e, s1)" "(r, s') = (Inl e, s1)"
    then show ?thesis using readStep_getSourcePlaylistTracks [OF _ pres] by auto
  next
    fix src s1
    assume g: "getSourcePlaylistTracks A s = Some (Inr src, s1)"
      and rest: "(case withinLastYear A src s1 of (within, s2) \<Rightarrow>
          andThen (Some (getRecentlyPlayedTracks A s2)) (\<lambda>played s3.
            case lockedUris A played s3 of (locked, s4) \<Rightarrow>
            andThen (getMirrorPlaylistTracks A s4) (\<lambda>mirror s5.
              Some (Inr \<lparr>sourceTracks = src, tracksWithinLastYear = within,
                         recentlyPlayedTracks = played, recentlyPlayedUris = locked,
                         mirrorTracks = mirror\<rparr>,
                    consoleLog (LogFoundMirror (length mirror)) s5)))) = Some (r, s')"
    have 1: "readStep obs s s1" by (rule readStep_getSourcePlaylistTracks [OF g pres])
    obtain within s2 where w: "withinLastYear A src s1 = (within, s2)"
      by (cases "withinLastYear A src s1")
    from readStep_withinLastYear [OF pres, of s1 src] w have "readStep obs s1 s2" by simp
    with 1 have 2: "readStep obs s s2" by (rule tr)
    obtain rp s3 where p: "getRecentlyPlayedTracks A s2 = (rp, s3)"
      by (cases "getRecentlyPlayedTracks A s2")
    from readStep_getRecentlyPlayedTracks [OF pres, of s2] p have "readStep obs s2 s3" by simp
    with 2 have 3: "readStep obs s s3" by (rule tr)
    show ?thesis
    proof (cases rp)
      case (Inl e)
      with rest w p 3 show ?thesis by (simp add: andThen_def)
    next
      case (Inr played)
      obtain locked s4 where l: "lockedUris A played s3 = (locked, s4)"
        by (cases "lockedUris A played s3")
      from readStep_lockedUris [OF pres, of s3 played] l have "readStep obs s3 s4" by simp
      with 3 have 4: "readStep obs s s4" by (rule tr)
      from rest w p Inr l have m: "andThen (getMirrorPlaylistTracks A s4) (\<lambda>mirror s5.
              Some (Inr \<lparr>sourceTracks = src, tracksWithinLastYear = within,
                         recentlyPlayedTracks = played, recentlyPlayedUris = locked,
                         mirrorTracks = mirror\<rparr>,
                    consoleLog (LogFoundMirror (length mirror)) s5)) = Some (r, s')"
        by (simp add: andThen_def)
      then show ?thesis
        unfolding andThen_Some
        using readStep_getMirrorPlaylistTracks [OF _ pres, of s4]
        by (auto intro: tr [OF 4] readStep_consoleLog)
    qed
  qed
qed

lemma syncMirrorPlaylist_fetch_fails:
  "fetchPhase A (consoleLog LogStarting s) = Some (Inl e, s1)
   \<Longrightarrow> syncMirrorPlaylist A s = Some (Inl e, consoleLog (ErrSyncing e) s1)"
  by (simp add: syncMirrorPlaylist_def andThen_def)

lemma readStep_start:
  "readStep obs (consoleLog LogStarting s) s' \<Longrightarrow> writes (consoleLog m s') = writes s \<and> obs (world (consoleLog m s')) = obs (world s)"
  by (simp add: readStep_def consoleLog_def writes_def)

text \<open>
  C6. When any of the three fetches fails (the source fetch, or after it the fetch of the
  recently played tracks, or after both the mirror fetch), \<open>syncMirrorPlaylist\<close> raises
  that error and has issued no write request; on a host whose clock, token refresh and reads
  leave an observation of the world unchanged (the playlists, for the reference host), the
  observation is unchanged: the mirror is as it was.
\<close>

theorem fetch_failure_aborts_before_writes:
  assumes pres: "readsPreserve A obs"
    and fails:
      "getSourcePlaylistTracks A (consoleLog LogStarting s) = Some (Inl e, s1)
       \<or> (getSourcePlaylistTracks A (consoleLog LogStarting s) = Some (Inr src, s1)
           \<and> getRecentlyPlayedTracks A (snd (withinLastYear A src s1)) = (Inl e, s3))
       \<or> (getSourcePlaylistTracks A (consoleLog LogStarting s) = Some (Inr src, s1)
           \<and> getRecentlyPlayedTracks A (snd (withinLastYear A src s1)) = (Inr played, s3)
           \<and> getMirrorPlaylistTracks A (snd (lockedUris A played s3)) = Some (Inl e, s5))"
  shows "\<exists>s'. syncMirrorPlaylist A s = Some (Inl e, s')
            \<and> writes s' = writes s \<and> obs (world s') = obs (world s)"
proof -
  from fails have "\<exists>sx. fetchPhase A (consoleLog LogStarting s) = Some (Inl e, sx)"
    by (auto simp: fetchPhase_def andThen_def split: prod.splits)
  then obtain sx where f: "fetchPhase A (consoleLog LogStarting s) = Some (Inl e, sx)" ..
  from readStep_fetchPhase [OF f pres] have "readStep obs (consoleLog LogStarting s) sx" .
  from readStep_start [OF this, of "ErrSyncing e"] syncMirrorPlaylist_fetch_fails [OF f]
  show ?thesis by blast
qed

lemma readsPreserve_spotifyApi: "readsPreserve (spotifyApi a b c d) sp_playlists"
  by (simp add: readsPreserve_def spotifyApi_def sp_dateNow_def sp_refreshAccessToken_def
        sp_setAccessToken_def sp_getPlaylistTracks_def sp_getMyRecentlyPlayedTracks_def
        sp_request_def Let_def split: option.splits)

theorem fetch_failure_aborts_before_writes_witness:
  "(\<exists>s'. syncMirrorPlaylist exampleApi (startState (failingAt 1 specExample)) = Some (Inl (ApiError 1), s')
        \<and> writes s' = [] \<and> sp_playlists (world s') = sp_playlists specExample)
   \<and> (\<exists>s'. syncMirrorPlaylist exampleApi (startState (failingAt 2 specExample)) = Some (Inl (ApiError 2), s')
        \<and> writes s' = [] \<and> sp_playlists (world s') = sp_playlists specExample)
   \<and> (\<exists>s'. syncMirrorPlaylist exampleApi (startState (failingAt 4 specExample)) = Some (Inl (ApiError 4), s')
        \<and> writes s' = [] \<and> sp_playlists (world s') = sp_playlists specExample)"
proof -
  have pres: "readsPreserve exampleApi sp_playlists"
    unfolding exampleApi_def by (rule readsPreserve_spotifyApi)
  have init: "writes (startState (failingAt k specExample)) = []"
    "sp_playlists (world (startState (failingAt k specExample))) = sp_playlists specExample" for k
    by (simp_all add: startState_def writes_def failingAt_def)
  let ?G = "\<lambda>k. getSourcePlaylistTracks exampleApi (consoleLog LogStarting (startState (failingAt k specExample)))"
  let ?P = "\<lambda>k. getRecentlyPlayedTracks exampleApi
               (snd (withinLastYear exampleApi (projr (fst (the (?G k)))) (snd (the (?G k)))))"
  let ?M = "\<lambda>k. getMirrorPlaylistTracks exampleApi
               (snd (lockedUris exampleApi (projr (fst (?P k))) (snd (?P k))))"
  have g1: "map_option fst (?G 1) = Some (Inl (ApiError 1))" by code_simp
  then obtain s1 where 1: "?G 1 = Some (Inl (ApiError 1), s1)" by (cases "?G 1") auto
  let ?src = "[\<lparr>uri = ''A'', addedAt = 965440000000\<rparr>,
               \<lparr>uri = ''B'', addedAt = 999136000000\<rparr>,
               \<lparr>uri = ''C'', addedAt = 999827200000\<rparr>]"
  let ?played = "[\<lparr>uri = ''B'', playedAt = 999913600000\<rparr>]"
  have g2: "map_option fst (?G 2) = Some (Inr ?src)" by code_simp
  then obtain s2 where 2: "?G 2 = Some (Inr ?src, s2)"
    by (cases "?G 2") auto
  have "fst (?P 2) = Inl (ApiError 2)" by code_simp
  with 2 obtain s3 where 3: "getRecentlyPlayedTracks exampleApi (snd (withinLastYear exampleApi ?src s2)) = (Inl (ApiError 2), s3)"
    by (cases "?P 2") auto
  have g4: "map_option fst (?G 4) = Some (Inr ?src)" by code_simp
  then obtain s4 where 4: "?G 4 = Some (Inr ?src, s4)"
    by (cases "?G 4") auto
  have "fst (?P 4) = Inr ?played" by code_simp
  with 4 obtain s5 where 5: "getRecentlyPlayedTracks exampleApi (snd (withinLastYear exampleApi ?src s4)) = (Inr ?played, s5)"
    by (cases "?P 4") auto
  have "map_option fst (?M 4) = Some (Inl (ApiError 4))" by code_simp
  with 4 5 obtain s6 where 6: "getMirrorPlaylistTracks exampleApi (snd (lockedUris exampleApi ?played s5)) = Some (Inl (ApiError 4), s6)"
    by (cases "?M 4") auto
  from fetch_failure_aborts_before_writes [OF pres, of "startState (failingAt 1 specExample)" "ApiError 1" s1] 1
       fetch_failure_aborts_before_writes [OF pres, of "startState (failingAt 2 specExample)" "ApiError 2" s2 ?src s3] 2 3
       fetch_failure_aborts_before_writes [OF pres, of "startState (failingAt 4 specExample)" "ApiError 4" s4 ?src s5 ?played s6] 4 5 6
  show ?thesis
    unfolding init by blast
qed

subsection \<open>The write phase\<close>

lemma chunksFrom_stop [simp]: "\<not> i < length xs \<Longrightarrow> chunksFrom i xs = []"
  by (subst chunksFrom.simps) simp





lemma writes_consoleLog [simp]: "writes (consoleLog m s) = writes s"
  by (simp add: writes_def consoleLog_def)








lemma readsPreserve_unit: "readsPreserve A (\<lambda>w. ())"
  by (simp add: readsPreserve_def)

lemma fetchPhase_writes:
  "fetchPhase A s = Some (r, s') \<Longrightarrow> writes s' = writes s"
  using readStep_fetchPhase [OF _ readsPreserve_unit] by (auto simp: readStep_def)


lemma envVar_Inr: "envVar name v = Inr x \<longleftrightarrow> v = Some x \<and> x \<noteq> []"
  by (auto simp: envVar_def split: option.splits)

lemma fetchPhase_Inr:
  "fetchPhase A s = Some (Inr snap, s') \<longleftrightarrow>
     (\<exists>src s1 played s3 mirror s5.
        getSourcePlaylistTracks A s = Some (Inr src, s1)
      \<and> getRecentlyPlayedTracks A (snd (withinLastYear A src s1)) = (Inr played, s3)
      \<and> getMirrorPlaylistTracks A (snd (lockedUris A played s3)) = Some (Inr mirror, s5)
      \<and> snap = \<lparr>sourceTracks = src, tracksWithinLastYear = fst (withinLastYear A src s1),
                 recentlyPlayedTracks = played, recentlyPlayedUris = fst (lockedUris A played s3),
                 mirrorTracks = mirror\<rparr>
      \<and> s' = consoleLog (LogFoundMirror (length mirror)) s5)"
proof (cases "getSourcePlaylistTracks A s")
  case None
  then show ?thesis by (simp add: fetchPhase_def andThen_def)
next
  case (Some y)
  obtain r s1 where y: "y = (r, s1)" by (cases y)
  show ?thesis
  proof (cases r)
    case (Inl e)
    with Some y show ?thesis by (simp add: fetchPhase_def andThen_def)
  next
    case (Inr src)
    obtain within s2 where w: "withinLastYear A src s1 = (within, s2)"
      by (cases "withinLastYear A src s1")
    obtain rp s3 where p: "getRecentlyPlayedTracks A s2 = (rp, s3)"
      by (cases "getRecentlyPlayedTracks A s2")
    show ?thesis
    proof (cases rp)
      case (Inl e)
      with Some y Inr w p show ?thesis by (simp add: fetchPhase_def andThen_def)
    next
      case played: (Inr played)
      obtain locked s4 where l: "lockedUris A played s3 = (locked, s4)"
        by (cases "lockedUris A played s3")
      show ?thesis
      proof (cases "getMirrorPlaylistTracks A s4")
        case None
        with Some y Inr w p played l show ?thesis by (simp add: fetchPhase_def andThen_def)
      next
        case m: (Some ym)
        obtain rm s5 where ym: "ym = (rm, s5)" by (cases ym)
        with Some y Inr w p played l m show ?thesis
          by (cases rm) (auto simp: fetchPhase_def andThen_def)
      qed
    qed
  qed
qed


lemma syncMirrorPlaylist_after_fetch:
  "fetchPhase A (consoleLog LogStarting s) = Some (Inr snap, s1)
   \<Longrightarrow> syncMirrorPlaylist A s =
       (case applyPhase A snap s1 of
          (Inl e, s2) \<Rightarrow> Some (Inl e, consoleLog (ErrSyncing e) s2)
        | (Inr u, s2) \<Rightarrow> Some (Inr (), consoleLog LogSyncCompleted s2))"
  by (simp add: syncMirrorPlaylist_def andThen_def split: prod.splits sum.splits)




subsection \<open>The reference host\<close>

lemma spotifyApi_sel [simp]:
  "dateNow (spotifyApi a b c d) = sp_dateNow"
  "minusOneYear (spotifyApi a b c d) = c"
  "minusFiveDays (spotifyApi a b c d) = d"
  "SOURCE_PLAYLIST_ID (spotifyApi a b c d) = a"
  "MIRROR_PLAYLIST_ID (spotifyApi a b c d) = b"
  "refreshAccessToken (spotifyApi a b c d) = sp_refreshAccessToken"
  "setAccessToken (spotifyApi a b c d) = sp_setAccessToken"
  "getPlaylistTracks (spotifyApi a b c d) = sp_getPlaylistTracks"
  "addTracksToPlaylist (spotifyApi a b c d) = sp_addTracksToPlaylist"
  "removeTracksFromPlaylist (spotifyApi a b c d) = sp_removeTracksFromPlaylist"
  "getMyRecentlyPlayedTracks (spotifyApi a b c d) = sp_getMyRecentlyPlayedTracks"
  by (simp_all add: spotifyApi_def)

lemma sp_request_Inr:
  "sp_request f w = (Inr r, w') \<longleftrightarrow>
     \<not> sp_fails w (sp_count w) \<and> f (w\<lparr>sp_count := Suc (sp_count w)\<rparr>) = (Inr r, w')"
  by (auto simp: sp_request_def Let_def)

lemma sp_getPlaylistTracks_Inr:
  "sp_getPlaylistTracks pid offset 100 w = (Inr items, w')
   \<Longrightarrow> \<exists>pl. sp_playlists w pid = Some pl \<and> items = take 100 (drop offset pl)"
  by (auto simp: sp_getPlaylistTracks_def sp_request_Inr split: option.splits)

lemma readsPreserve_spotifyApi_all:
  "readsPreserve (spotifyApi a b c d) (\<lambda>w. (sp_playlists w, sp_clock w, sp_history w))"
  by (simp add: readsPreserve_def sp_dateNow_def sp_refreshAccessToken_def
        sp_setAccessToken_def sp_getPlaylistTracks_def sp_getMyRecentlyPlayedTracks_def
        sp_request_def Let_def split: option.splits)

lemma fetchAllPages_spotify:
  assumes push: "\<And>off xs ys. push off (xs @ ys) = push off xs @ push (off + length xs) ys"
    and A: "A = spotifyApi a b c d"
  shows "sp_playlists (world s) pid = Some pl
     \<Longrightarrow> fetchAllPages A pid push offset tracks s = Some (Inr r, s')
     \<Longrightarrow> r = tracks @ push offset (drop offset pl)"
proof (induction "length pl - offset" arbitrary: offset tracks s rule: less_induct)
  case less
  obtain r1 w1 where g: "sp_getPlaylistTracks pid offset 100 (world s) = (r1, w1)"
    by (cases "sp_getPlaylistTracks pid offset 100 (world s)")
  let ?s1 = "s\<lparr>world := w1, calls := calls s @ [CGetTracks pid offset 100]\<rparr>"
  from less.prems(2) g obtain items where r1: "r1 = Inr items"
    by (subst (asm) fetchAllPages.simps) (auto simp: A request_def split: sum.splits)
  from sp_getPlaylistTracks_Inr [OF g [unfolded r1]] less.prems(1)
  have items: "items = take 100 (drop offset pl)" by simp
  from readsPreserveD(4) [OF readsPreserve_spotifyApi_all, of a b c d pid offset 100 "world s"] g
  have same: "sp_playlists w1 = sp_playlists (world s)" by simp
  show ?case
  proof (cases "length items = 100")
    case True
    with less.prems(2) g r1
    have rec: "fetchAllPages A pid push (offset + 100) (tracks @ push offset items) ?s1 = Some (Inr r, s')"
      by (subst (asm) fetchAllPages.simps) (simp add: A request_def)
    from True items have "offset + 100 \<le> length pl" by simp
    then have "length pl - (offset + 100) < length pl - offset" by simp
    from less.hyps [OF this _ rec] same less.prems(1)
    have "r = (tracks @ push offset items) @ push (offset + 100) (drop (offset + 100) pl)" by simp
    moreover have "items @ drop (offset + 100) pl = drop offset pl"
      unfolding items by (metis add.commute append_take_drop_id drop_drop)
    ultimately show ?thesis
      using push [of offset items "drop (offset + 100) pl"] True by simp
  next
    case False
    with less.prems(2) g r1 have "r = tracks @ push offset items"
      by (subst (asm) fetchAllPages.simps) (simp add: A request_def)
    moreover from False items have "items = drop offset pl" by simp
    ultimately show ?thesis by simp
  qed
qed

lemma fetchAllPages_spotify_exists:
  assumes A: "A = spotifyApi a b c d"
    and "fetchAllPages A pid push offset tracks s = Some (Inr r, s')"
  shows "\<exists>pl. sp_playlists (world s) pid = Some pl"
proof -
  obtain r1 w1 where g: "sp_getPlaylistTracks pid offset 100 (world s) = (r1, w1)"
    by (cases "sp_getPlaylistTracks pid offset 100 (world s)")
  from assms(2) g obtain items where r1: "r1 = Inr items"
    by (subst (asm) fetchAllPages.simps) (auto simp: A request_def split: sum.splits)
  from sp_getPlaylistTracks_Inr [OF g [unfolded r1]] show ?thesis by blast
qed

lemma pushes_append:
  "sourceRows off (xs @ ys) = sourceRows off xs @ sourceRows (off + length xs) ys"
  "mirrorRows off (xs @ ys) = mirrorRows off xs @ mirrorRows (off + length xs) ys"
  by (rule sourceRows_append, rule mirrorRows_append)

lemma ensureAccessToken_spotify:
  assumes "ensureAccessToken (spotifyApi a b c d) s = (r, s')"
  shows "sp_playlists (world s') = sp_playlists (world s)
       \<and> sp_clock (world s') = sp_clock (world s)
       \<and> sp_history (world s') = sp_history (world s)"
  using readStep_ensureAccessToken [OF readsPreserve_spotifyApi_all assms]
  by (simp add: readStep_def)

lemma getSourcePlaylistTracks_spotify:
  assumes "getSourcePlaylistTracks (spotifyApi a b c d) s = Some (Inr src, s')"
  shows "\<exists>sid pl. a = Some sid \<and> sp_playlists (world s) sid = Some pl \<and> src = sourceRows 0 pl"
proof -
  let ?A = "spotifyApi a b c d"
  obtain r1 s1 where t: "ensureAccessToken ?A s = (r1, s1)" by (cases "ensureAccessToken ?A s")
  from assms t obtain sid where sid: "envVar ''SOURCE_PLAYLIST_ID'' a = Inr sid"
    and f: "fetchAllPages ?A sid sourceRows 0 [] s1 = Some (Inr src, s')"
    by (auto simp: getSourcePlaylistTracks_def split: sum.splits)
  from fetchAllPages_spotify_exists [OF refl f] obtain pl where pl: "sp_playlists (world s1) sid = Some pl" ..
  from fetchAllPages_spotify [OF pushes_append(1) refl pl f] have "src = sourceRows 0 pl" by simp
  with pl sid ensureAccessToken_spotify [OF t] show ?thesis
    by (auto simp: envVar_Inr)
qed

lemma getMirrorPlaylistTracks_spotify:
  assumes "getMirrorPlaylistTracks (spotifyApi a b c d) s = Some (Inr mirror, s')"
  shows "\<exists>mid pl. b = Some mid \<and> mid \<noteq> [] \<and> sp_playlists (world s) mid = Some pl \<and> mirror = mirrorRows 0 pl"
proof -
  let ?A = "spotifyApi a b c d"
  obtain r1 s1 where t: "ensureAccessToken ?A s = (r1, s1)" by (cases "ensureAccessToken ?A s")
  from assms t obtain mid where mid: "envVar ''MIRROR_PLAYLIST_ID'' b = Inr mid"
    and f: "fetchAllPages ?A mid mirrorRows 0 [] s1 = Some (Inr mirror, s')"
    by (auto simp: getMirrorPlaylistTracks_def split: sum.splits)
  from fetchAllPages_spotify_exists [OF refl f] obtain pl where pl: "sp_playlists (world s1) mid = Some pl" ..
  from fetchAllPages_spotify [OF pushes_append(2) refl pl f] have "mirror = mirrorRows 0 pl" by simp
  with pl mid ensureAccessToken_spotify [OF t] show ?thesis
    by (auto simp: envVar_Inr)
qed

lemma filterW_frozen:
  assumes "\<And>x w. fst (p x w) = q x" and "\<And>x w. sp_clock (snd (p x w)) = sp_clock w"
  shows "fst (filterW p xs w) = filter q xs"
proof (induction xs arbitrary: w)
  case (Cons x xs)
  obtain b w1 where p: "p x w = (b, w1)" by (cases "p x w")
  with assms(1) [of x w] have "b = q x" by simp
  with Cons [of w1] p show ?case
    by (auto split: prod.splits)
qed simp

lemma filterW_clock:
  assumes "\<And>x w. (\<forall>k. sp_clock w k = now) \<Longrightarrow> fst (p x w) = q x \<and> sp_clock (snd (p x w)) = sp_clock w"
    and "\<forall>k. sp_clock w k = now"
  shows "fst (filterW p xs w) = filter q xs"
  using assms(2)
proof (induction xs arbitrary: w)
  case (Cons x xs)
  obtain b w1 where p: "p x w = (b, w1)" by (cases "p x w")
  with assms(1) [OF Cons.prems, of x] have "b = q x" "sp_clock w1 = sp_clock w" by simp_all
  with Cons.IH [of w1] Cons.prems p show ?case
    by (auto split: prod.splits)
qed simp

lemma withinLastYear_spotify:
  assumes "\<forall>k. sp_clock (world s) k = now"
  shows "fst (withinLastYear (spotifyApi a b c d) src s) = filter (\<lambda>t. c now \<le> addedAt t) src"
proof -
  have "fst (filterW (\<lambda>t. isAddedWithinLastYear (spotifyApi a b c d) (addedAt t)) src (world s))
          = filter (\<lambda>t. c now \<le> addedAt t) src"
    by (rule filterW_clock [where now = now])
       (simp_all add: isAddedWithinLastYear_def sp_dateNow_def assms)
  then show ?thesis
    by (cases "filterW (\<lambda>t. isAddedWithinLastYear (spotifyApi a b c d) (addedAt t)) src (world s)")
       (simp add: withinLastYear_def Let_def consoleLog_def)
qed

lemma lockedUris_spotify:
  assumes "\<forall>k. sp_clock (world s) k = now"
  shows "fst (lockedUris (spotifyApi a b c d) played s)
           = set (map uri (filter (\<lambda>t. d now \<le> playedAt t) played))"
proof -
  have "fst (filterW (\<lambda>t. isPlayedRecentlyWithinLockPeriod (spotifyApi a b c d) (playedAt t)) played (world s))
          = filter (\<lambda>t. d now \<le> playedAt t) played"
    by (rule filterW_clock [where now = now])
       (simp_all add: isPlayedRecentlyWithinLockPeriod_def sp_dateNow_def assms)
  then show ?thesis
    by (cases "filterW (\<lambda>t. isPlayedRecentlyWithinLockPeriod (spotifyApi a b c d) (playedAt t)) played (world s)")
       (simp add: lockedUris_def Let_def consoleLog_def)
qed

lemma sp_getMyRecentlyPlayedTracks_det:
  assumes "sp_getMyRecentlyPlayedTracks l bf w = (Inr items, w')"
    and "sp_getMyRecentlyPlayedTracks l bf v = (Inr items', v')"
    and "sp_history w = sp_history v"
  shows "items = items' \<and> sp_history w' = sp_history v'"
  using assms by (auto simp: sp_getMyRecentlyPlayedTracks_def sp_request_Inr Let_def split: option.splits)

lemma playedLoop_spotify_det:
  "A = spotifyApi a b c d \<Longrightarrow> playedLoop A bt m n tracks s = (Inr r, s')
   \<Longrightarrow> playedLoop A bt m n tracks t = (Inr r', t')
   \<Longrightarrow> sp_history (world s) = sp_history (world t) \<Longrightarrow> r = r'"
proof (induction A bt m n tracks s arbitrary: t rule: playedLoop.induct)
  case (1 A bt m n tracks s)
  note A = "1.prems"(1)
  show ?case
  proof (cases "m \<and> length tracks < 100 \<and> n < 3")
    case False
    with "1.prems" show ?thesis by simp
  next
    case True
    let ?s1 = "consoleLog (LogMakingRequest (Suc n)) s"
    let ?t1 = "consoleLog (LogMakingRequest (Suc n)) t"
    let ?c = "CRecentlyPlayed 50 (beforeOption bt)"
    let ?f = "getMyRecentlyPlayedTracks A 50 (beforeOption bt)"
    obtain r1 s2 where qs: "request ?c ?f ?s1 = (r1, s2)" by (cases "request ?c ?f ?s1")
    obtain q1 t2 where qt: "request ?c ?f ?t1 = (q1, t2)" by (cases "request ?c ?f ?t1")
    from "1.prems"(2) True qs obtain items where r1: "r1 = Inr items"
      by (subst (asm) playedLoop.simps) (auto simp: Let_def split: sum.splits)
    from "1.prems"(3) True qt obtain items' where q1: "q1 = Inr items'"
      by (subst (asm) playedLoop.simps) (auto simp: Let_def split: sum.splits)
    from qs r1 have gs: "sp_getMyRecentlyPlayedTracks 50 (beforeOption bt) (world s) = (Inr items, world s2)"
      by (auto simp: request_def A consoleLog_def split: prod.splits)
    from qt q1 have gt: "sp_getMyRecentlyPlayedTracks 50 (beforeOption bt) (world t) = (Inr items', world t2)"
      by (auto simp: request_def A consoleLog_def split: prod.splits)
    from sp_getMyRecentlyPlayedTracks_det [OF gs gt "1.prems"(4)]
    have eq: "items' = items" and h: "sp_history (world s2) = sp_history (world t2)" by simp_all
    note IH = "1.IH" [OF True refl refl qs [symmetric] r1]
    show ?thesis
    proof (cases "length items = 0")
      case z: True
      from "1.prems"(2) True qs r1 z have a: "playedLoop A bt False (Suc n) tracks s2 = (Inr r, s')"
        by (subst (asm) playedLoop.simps) (simp add: Let_def del: playedLoop_stop)
      from "1.prems"(3) True qt q1 eq z have b: "playedLoop A bt False (Suc n) tracks t2 = (Inr r', t')"
        by (subst (asm) playedLoop.simps) (simp add: Let_def del: playedLoop_stop)
      from IH(1) [OF z A a b h] show ?thesis .
    next
      case nz: False
      let ?tr = "tracks @ playedTracksOf items"
      let ?s3 = "consoleLog (LogRetrievedSoFar (length ?tr)) s2"
      let ?t3 = "consoleLog (LogRetrievedSoFar (length ?tr)) t2"
      have h3: "sp_history (world ?s3) = sp_history (world ?t3)"
        using h by (simp add: consoleLog_def)
      show ?thesis
      proof (cases "length items > 0 \<and> length ?tr < 100")
        case c: True
        from "1.prems"(2) True qs r1 nz c
        have a: "playedLoop A (played_at (last items)) m (Suc n) ?tr ?s3 = (Inr r, s')"
          by (subst (asm) playedLoop.simps) (simp add: Let_def del: playedLoop_stop)
        from "1.prems"(3) True qt q1 eq nz c
        have b: "playedLoop A (played_at (last items)) m (Suc n) ?tr ?t3 = (Inr r', t')"
          by (subst (asm) playedLoop.simps) (simp add: Let_def del: playedLoop_stop)
        from IH(2) [OF nz refl refl c A a b h3] show ?thesis .
      next
        case c: False
        from "1.prems"(2) True qs r1 nz c
        have a: "playedLoop A bt False (Suc n) ?tr ?s3 = (Inr r, s')"
          by (subst (asm) playedLoop.simps) (simp add: Let_def del: playedLoop_stop)
        from "1.prems"(3) True qt q1 eq nz c
        have b: "playedLoop A bt False (Suc n) ?tr ?t3 = (Inr r', t')"
          by (subst (asm) playedLoop.simps) (simp add: Let_def del: playedLoop_stop)
        from IH(3) [OF nz refl refl c A a b h3] show ?thesis .
      qed
    qed
  qed
qed

lemma getRecentlyPlayedTracks_spotify_det:
  assumes "getRecentlyPlayedTracks (spotifyApi a b c d) s = (Inr r, s')"
    and "getRecentlyPlayedTracks (spotifyApi a b c d) t = (Inr r', t')"
    and "sp_history (world s) = sp_history (world t)"
  shows "r = r'"
proof -
  let ?A = "spotifyApi a b c d"
  obtain r1 s1 where ts: "ensureAccessToken ?A s = (r1, s1)" by (cases "ensureAccessToken ?A s")
  obtain q1 t1 where tt: "ensureAccessToken ?A t = (q1, t1)" by (cases "ensureAccessToken ?A t")
  obtain r2 s2 where ls: "playedLoop ?A None True 0 [] s1 = (r2, s2)" by (cases "playedLoop ?A None True 0 [] s1")
  obtain q2 t2 where lt: "playedLoop ?A None True 0 [] t1 = (q2, t2)" by (cases "playedLoop ?A None True 0 [] t1")
  from assms(1) ts ls obtain x where x: "r2 = Inr x" "r = uniqueByUri x"
    by (auto simp: getRecentlyPlayedTracks_def Let_def split: sum.splits)
  from assms(2) tt lt obtain y where y: "q2 = Inr y" "r' = uniqueByUri y"
    by (auto simp: getRecentlyPlayedTracks_def Let_def split: sum.splits)
  from ensureAccessToken_spotify [OF ts] ensureAccessToken_spotify [OF tt] assms(3)
  have "sp_history (world s1) = sp_history (world t1)" by simp
  from playedLoop_spotify_det [OF refl ls [unfolded x] lt [unfolded y] this] x y show ?thesis by simp
qed

lemma removeUris_removeUris: "removeUris U (removeUris V pl) = removeUris (V \<union> U) pl"
  by (auto simp: removeUris_def intro: filter_cong split: option.splits)

lemma removeUris_empty [simp]: "removeUris {} pl = pl"
  by (simp add: removeUris_def split: option.splits cong: option.case_cong)

lemma sameWorld_refl [simp]: "sameWorld w w"
  by (simp add: sameWorld_def)

lemma sameWorld_trans: "sameWorld w w' \<Longrightarrow> sameWorld w' w'' \<Longrightarrow> sameWorld w w''"
  by (simp add: sameWorld_def)

lemma sp_removeTracksFromPlaylist_Inr:
  assumes "sp_removeTracksFromPlaylist pid uris w = (Inr u, w')"
  shows "\<exists>pl. sp_playlists w pid = Some pl
           \<and> sp_playlists w' = (sp_playlists w)(pid \<mapsto> removeUris (set uris) pl)
           \<and> sameWorld w w'"
  using assms
  by (auto simp: sp_removeTracksFromPlaylist_def sp_request_Inr Let_def removeUris_def sameWorld_def
        split: option.splits if_splits)

lemma sp_addTracksToPlaylist_Inr:
  assumes "sp_addTracksToPlaylist pid uris None w = (Inr u, w')"
  shows "\<exists>pl rows. sp_playlists w pid = Some pl
           \<and> sp_playlists w' = (sp_playlists w)(pid \<mapsto> pl @ rows)
           \<and> map track rows = map Some uris
           \<and> sameWorld w w'"
  using assms
  by (auto simp: sp_addTracksToPlaylist_def sp_request_Inr Let_def sameWorld_def comp_def
        split: option.splits if_splits)

lemma ensureAccessToken_sameWorld:
  assumes "ensureAccessToken (spotifyApi a b c d) s = (r, s')"
  shows "sp_playlists (world s') = sp_playlists (world s) \<and> sameWorld (world s) (world s')"
  using ensureAccessToken_spotify [OF assms] by (simp add: sameWorld_def)

lemma take_drop_set: "set (take n (drop i xs)) \<union> set (drop (i + n) xs) = set (drop i xs)"
  by (metis add.commute append_take_drop_id drop_drop set_append)

lemma removeLoop_spotify:
  "A = spotifyApi a b c d \<Longrightarrow> removeLoop A mid uris i s = (Inr (), s')
   \<Longrightarrow> sp_playlists (world s) mid = Some pl
   \<Longrightarrow> sp_playlists (world s') = (sp_playlists (world s))(mid \<mapsto> removeUris (set (drop i uris)) pl)
     \<and> sameWorld (world s) (world s')"
proof (induction A mid uris i s arbitrary: pl rule: removeLoop.induct)
  case (1 A mid uris i s)
  note A = "1.prems"(1)
  show ?case
  proof (cases "i < length uris")
    case False
    with "1.prems" show ?thesis
      by (subst (asm) removeLoop.simps) (auto simp: map_upd_triv)
  next
    case True
    let ?c = "slice i (i + 100) uris"
    obtain r1 s1 where q: "request (CRemove mid ?c) (removeTracksFromPlaylist A mid ?c) s = (r1, s1)"
      by (cases "request (CRemove mid ?c) (removeTracksFromPlaylist A mid ?c) s")
    from "1.prems"(2) True q obtain u where r1: "r1 = Inr u"
      and rest: "removeLoop A mid uris (i + 100) s1 = (Inr (), s')"
      by (subst (asm) removeLoop.simps) (auto simp: Let_def split: sum.splits)
    from q r1 have "sp_removeTracksFromPlaylist mid ?c (world s) = (Inr u, world s1)"
      by (auto simp: request_def A split: prod.splits)
    from sp_removeTracksFromPlaylist_Inr [OF this] "1.prems"(3)
    have p1: "sp_playlists (world s1) = (sp_playlists (world s))(mid \<mapsto> removeUris (set ?c) pl)"
      and w1: "sameWorld (world s) (world s1)" by auto
    from p1 have pl1: "sp_playlists (world s1) mid = Some (removeUris (set ?c) pl)" by simp
    note ih = "1.IH" [OF True refl q [symmetric] r1 A rest pl1]
    have "removeUris (set (drop (i + 100) uris)) (removeUris (set ?c) pl) = removeUris (set (drop i uris)) pl"
      by (simp add: removeUris_removeUris slice_def take_drop_set)
    with ih [THEN conjunct1] p1
    have "sp_playlists (world s') = (sp_playlists (world s))(mid \<mapsto> removeUris (set (drop i uris)) pl)"
      by (simp only: fun_upd_upd)
    moreover from w1 ih [THEN conjunct2] have "sameWorld (world s) (world s')"
      by (rule sameWorld_trans)
    ultimately show ?thesis by (rule conjI)
  qed
qed

lemma removeTracksFromMirrorPlaylist_spotify:
  assumes "removeTracksFromMirrorPlaylist (spotifyApi a (Some mid) c d) uris s = (Inr (), s')"
    and "sp_playlists (world s) mid = Some pl"
  shows "sp_playlists (world s') = (sp_playlists (world s))(mid \<mapsto> removeUris (set uris) pl)
       \<and> sameWorld (world s) (world s')"
proof (cases "uris = []")
  case True
  with assms show ?thesis by (simp add: removeTracksFromMirrorPlaylist_def map_upd_triv)
next
  case False
  let ?A = "spotifyApi a (Some mid) c d"
  obtain r1 s1 where t: "ensureAccessToken ?A s = (r1, s1)" by (cases "ensureAccessToken ?A s")
  from assms(1) False t have l: "removeLoop ?A mid uris 0 s1 = (Inr (), s')"
    by (auto simp: removeTracksFromMirrorPlaylist_def envVar_def split: sum.splits if_splits)
  note e = ensureAccessToken_sameWorld [OF t]
  from removeLoop_spotify [OF refl l, of pl] e assms(2) show ?thesis
    by (auto intro: sameWorld_trans)
qed

lemma addLoop_spotify_single:
  assumes "0 < length chunk" "length chunk \<le> 100"
    and "addLoop (spotifyApi a b c d) mid chunk None 0 s = (Inr (), s')"
    and "sp_playlists (world s) mid = Some pl"
  shows "\<exists>rows. sp_playlists (world s') = (sp_playlists (world s))(mid \<mapsto> pl @ rows)
            \<and> map track rows = map Some chunk \<and> sameWorld (world s) (world s')"
proof -
  let ?A = "spotifyApi a b c d"
  from assms(1,2) have sl: "slice 0 (0 + 100) chunk = chunk" by (simp add: slice_def)
  obtain r1 s1 where q: "request (CAdd mid chunk None) (addTracksToPlaylist ?A mid chunk None) s = (r1, s1)"
    by (cases "request (CAdd mid chunk None) (addTracksToPlaylist ?A mid chunk None) s")
  from assms(1,3) q sl obtain u where r1: "r1 = Inr u"
    and rest: "addLoop ?A mid chunk None (0 + 100) s1 = (Inr (), s')"
    by (subst (asm) addLoop.simps) (auto simp: Let_def split: sum.splits)
  from rest assms(2) have "s' = s1"
    by (subst (asm) addLoop.simps) simp
  moreover from q r1 have "sp_addTracksToPlaylist mid chunk None (world s) = (Inr u, world s1)"
    by (auto simp: request_def split: prod.splits)
  from sp_addTracksToPlaylist_Inr [OF this] assms(4)
  have "\<exists>rows. sp_playlists (world s1) = (sp_playlists (world s))(mid \<mapsto> pl @ rows)
            \<and> map track rows = map Some chunk \<and> sameWorld (world s) (world s1)"
    by auto
  ultimately show ?thesis by simp
qed

lemma addTracksToMirrorPlaylist_spotify:
  assumes "0 < length chunk" "length chunk \<le> 100"
    and "addTracksToMirrorPlaylist (spotifyApi a (Some mid) c d) chunk None s = (Inr (), s')"
    and "sp_playlists (world s) mid = Some pl"
  shows "\<exists>rows. sp_playlists (world s') = (sp_playlists (world s))(mid \<mapsto> pl @ rows)
            \<and> map track rows = map Some chunk \<and> sameWorld (world s) (world s')"
proof -
  let ?A = "spotifyApi a (Some mid) c d"
  obtain r1 s1 where t: "ensureAccessToken ?A s = (r1, s1)" by (cases "ensureAccessToken ?A s")
  from assms(1,3) t have l: "addLoop ?A mid chunk None 0 s1 = (Inr (), s')"
    by (auto simp: addTracksToMirrorPlaylist_def envVar_def split: sum.splits if_splits)
  note e = ensureAccessToken_sameWorld [OF t]
  from addLoop_spotify_single [OF assms(1,2) l, of pl] e assms(4) show ?thesis
    by (auto intro: sameWorld_trans)
qed

lemma addChunks_spotify:
  "A = spotifyApi a (Some mid) c d \<Longrightarrow> addChunks A uris i s = (Inr (), s')
   \<Longrightarrow> sp_playlists (world s) mid = Some pl
   \<Longrightarrow> \<exists>rows. sp_playlists (world s') = (sp_playlists (world s))(mid \<mapsto> pl @ rows)
          \<and> map track rows = map Some (drop i uris) \<and> sameWorld (world s) (world s')"
proof (induction A uris i s arbitrary: pl rule: addChunks.induct)
  case (1 A uris i s)
  note A = "1.prems"(1)
  show ?case
  proof (cases "i < length uris")
    case False
    with "1.prems" show ?thesis
      by (subst (asm) addChunks.simps) (auto simp: map_upd_triv)
  next
    case True
    let ?c = "slice i (i + 100) uris"
    obtain r1 s1 where q: "addTracksToMirrorPlaylist A ?c None s = (r1, s1)"
      by (cases "addTracksToMirrorPlaylist A ?c None s")
    let ?s2 = "if i mod 100 = 0 \<or> i + 100 \<ge> length uris
               then consoleLog (LogAdded (min (i + 100) (length uris)) (length uris)) s1 else s1"
    from "1.prems"(2) True q have r1: "r1 = Inr ()"
      and rest: "addChunks A uris (i + 100) ?s2 = (Inr (), s')"
      by (subst (asm) addChunks.simps, auto simp: Let_def split: sum.splits)+
    from True have len: "0 < length ?c" "length ?c \<le> 100" by (simp_all add: slice_def)
    from addTracksToMirrorPlaylist_spotify [OF len q [unfolded A r1] "1.prems"(3)]
    obtain rows1 where p1: "sp_playlists (world s1) = (sp_playlists (world s))(mid \<mapsto> pl @ rows1)"
      and t1: "map track rows1 = map Some ?c" and w1: "sameWorld (world s) (world s1)"
      by auto
    have w2: "world ?s2 = world s1" by (simp add: consoleLog_def)
    from p1 w2 have pl2: "sp_playlists (world ?s2) mid = Some (pl @ rows1)" by simp
    from "1.IH" [OF True refl q [symmetric] r1 refl A rest pl2]
    obtain rows2 where p2: "sp_playlists (world s') = (sp_playlists (world ?s2))(mid \<mapsto> (pl @ rows1) @ rows2)"
      and t2: "map track rows2 = map Some (drop (i + 100) uris)" and w3: "sameWorld (world ?s2) (world s')"
      by blast
    have "take 100 (drop i uris) @ drop (i + 100) uris = drop i uris"
      by (metis add.commute append_take_drop_id drop_drop)
    then have "map Some (drop i uris) = map Some (take 100 (drop i uris)) @ map Some (drop (i + 100) uris)"
      by (metis map_append)
    then have "map track (rows1 @ rows2) = map Some (drop i uris)"
      using t1 t2 by (simp add: slice_def)
    moreover from p1 p2 have "sp_playlists (world s') = (sp_playlists (world s))(mid \<mapsto> pl @ (rows1 @ rows2))"
      by (simp only: w2 fun_upd_upd append_assoc)
    moreover from w1 w3 have "sameWorld (world s) (world s')"
      unfolding w2 by (rule sameWorld_trans)
    ultimately show ?thesis by blast
  qed
qed

lemma rebuild_spotify:
  assumes "rebuild (spotifyApi a (Some mid) c d) snap s = (Inr (), s')"
    and pl: "sp_playlists (world s) mid = Some pl"
  shows "\<exists>rows. sp_playlists (world s')
                 = (sp_playlists (world s))(mid \<mapsto> removeUris (set (allCurrentUris snap)) pl @ rows)
            \<and> map track rows = map Some (urisInOrder snap)
            \<and> sameWorld (world s) (world s')"
proof -
  let ?A = "spotifyApi a (Some mid) c d"
  let ?s1 = "consoleLog LogChangesDetected s"
  let ?rm = "if length (allCurrentUris snap) > 0
             then removeTracksFromMirrorPlaylist ?A (allCurrentUris snap) (consoleLog LogRemovingAll ?s1)
             else (Inr (), ?s1)"
  obtain r2 s2 where rm: "?rm = (r2, s2)" by (cases ?rm)
  let ?s2 = "consoleLog LogAddingNewestFirst s2"
  obtain r3 s3 where ad: "addChunks ?A (urisInOrder snap) 0 ?s2 = (r3, s3)"
    by (cases "addChunks ?A (urisInOrder snap) 0 ?s2")
  from assms(1) rm ad have r2: "r2 = Inr ()" and r3: "r3 = Inr ()"
    and s': "world s' = world s3"
    by (auto simp: rebuild_def Let_def consoleLog_def split: sum.splits if_splits)
  let ?pl1 = "removeUris (set (allCurrentUris snap)) pl"
  have w0: "world (consoleLog LogRemovingAll ?s1) = world s" "world ?s1 = world s"
    by (simp_all add: consoleLog_def)
  have p2: "sp_playlists (world s2) = (sp_playlists (world s))(mid \<mapsto> ?pl1) \<and> sameWorld (world s) (world s2)"
  proof (cases "length (allCurrentUris snap) > 0")
    case True
    with rm r2 have "removeTracksFromMirrorPlaylist ?A (allCurrentUris snap) (consoleLog LogRemovingAll ?s1) = (Inr (), s2)"
      by simp
    from removeTracksFromMirrorPlaylist_spotify [OF this, of pl] pl show ?thesis
      by (simp only: w0)
  next
    case False
    with rm have "s2 = ?s1" "allCurrentUris snap = []" by auto
    with pl show ?thesis by (simp add: w0 map_upd_triv)
  qed
  have w2: "world ?s2 = world s2" by (simp add: consoleLog_def)
  from p2 have pl2: "sp_playlists (world ?s2) mid = Some ?pl1" by (simp add: w2)
  from addChunks_spotify [OF refl ad [unfolded r3] pl2]
  obtain rows where p3: "sp_playlists (world s3) = (sp_playlists (world ?s2))(mid \<mapsto> ?pl1 @ rows)"
    and t3: "map track rows = map Some (urisInOrder snap)" and w3: "sameWorld (world ?s2) (world s3)"
    by auto
  from p3 p2 have "sp_playlists (world s') = (sp_playlists (world s))(mid \<mapsto> ?pl1 @ rows)"
    by (simp only: s' w2 fun_upd_upd)
  moreover from p2 w3 have "sameWorld (world s) (world s')"
    unfolding s' w2 by (blast intro: sameWorld_trans)
  ultimately show ?thesis using t3 by blast
qed

lemma readStep_spotifyD:
  assumes "readStep (\<lambda>w. (sp_playlists w, sp_clock w, sp_history w)) s s'"
  shows "sp_playlists (world s') = sp_playlists (world s)"
    and "sp_clock (world s') = sp_clock (world s)"
    and "sp_history (world s') = sp_history (world s)"
  using assms by (simp_all add: readStep_def)

lemma fetchPhase_spotify:
  assumes f: "fetchPhase (spotifyApi a b c d) s = Some (Inr snap, s1)"
    and froz: "\<forall>k. sp_clock (world s) k = now"
  shows "\<exists>sid mid srcPl mirPl sp s3.
           a = Some sid \<and> b = Some mid
         \<and> sp_playlists (world s) sid = Some srcPl \<and> sp_playlists (world s) mid = Some mirPl
         \<and> sourceTracks snap = sourceRows 0 srcPl
         \<and> tracksWithinLastYear snap = filter (\<lambda>t. c now \<le> addedAt t) (sourceRows 0 srcPl)
         \<and> recentlyPlayedUris snap
              = set (map uri (filter (\<lambda>t. d now \<le> playedAt t) (recentlyPlayedTracks snap)))
         \<and> mirrorTracks snap = mirrorRows 0 mirPl
         \<and> getRecentlyPlayedTracks (spotifyApi a b c d) sp = (Inr (recentlyPlayedTracks snap), s3)
         \<and> sp_history (world sp) = sp_history (world s)
         \<and> sp_playlists (world s1) = sp_playlists (world s)
         \<and> sameWorld (world s) (world s1)"
proof -
  let ?A = "spotifyApi a b c d"
  let ?obs = "\<lambda>w. (sp_playlists w, sp_clock w, sp_history w)"
  note pres = readsPreserve_spotifyApi_all [of a b c d]
  from f obtain src sa played sc mirror se where
    g: "getSourcePlaylistTracks ?A s = Some (Inr src, sa)"
    and p: "getRecentlyPlayedTracks ?A (snd (withinLastYear ?A src sa)) = (Inr played, sc)"
    and m: "getMirrorPlaylistTracks ?A (snd (lockedUris ?A played sc)) = Some (Inr mirror, se)"
    and snap: "snap = \<lparr>sourceTracks = src, tracksWithinLastYear = fst (withinLastYear ?A src sa),
                 recentlyPlayedTracks = played, recentlyPlayedUris = fst (lockedUris ?A played sc),
                 mirrorTracks = mirror\<rparr>"
    and s1: "s1 = consoleLog (LogFoundMirror (length mirror)) se"
    unfolding fetchPhase_Inr by blast
  let ?sb = "snd (withinLastYear ?A src sa)"
  let ?sd = "snd (lockedUris ?A played sc)"
  have 1: "readStep ?obs s sa" by (rule readStep_getSourcePlaylistTracks [OF g pres])
  have 2: "readStep ?obs s ?sb"
    by (rule readStep_trans [OF 1 readStep_withinLastYear [OF pres]])
  from readStep_getRecentlyPlayedTracks [OF pres, of ?sb] p have "readStep ?obs ?sb sc" by simp
  with 2 have 3: "readStep ?obs s sc" by (rule readStep_trans)
  have 4: "readStep ?obs s ?sd"
    by (rule readStep_trans [OF 3 readStep_lockedUris [OF pres]])
  have 5: "readStep ?obs s se"
    by (rule readStep_trans [OF 4 readStep_getMirrorPlaylistTracks [OF m pres]])
  from getSourcePlaylistTracks_spotify [OF g] obtain sid srcPl
    where sid: "a = Some sid" "sp_playlists (world s) sid = Some srcPl" "src = sourceRows 0 srcPl"
    by blast
  from getMirrorPlaylistTracks_spotify [OF m] readStep_spotifyD(1) [OF 4] obtain mid mirPl
    where mid: "b = Some mid" "sp_playlists (world s) mid = Some mirPl" "mirror = mirrorRows 0 mirPl"
    by auto
  from froz readStep_spotifyD(2) [OF 1] have "\<forall>k. sp_clock (world sa) k = now" by simp
  from withinLastYear_spotify [OF this, of a b c d src]
  have w: "fst (withinLastYear ?A src sa) = filter (\<lambda>t. c now \<le> addedAt t) src" .
  from froz readStep_spotifyD(2) [OF 3] have "\<forall>k. sp_clock (world sc) k = now" by simp
  from lockedUris_spotify [OF this, of a b c d played]
  have l: "fst (lockedUris ?A played sc) = set (map uri (filter (\<lambda>t. d now \<le> playedAt t) played))" .
  have w1: "world s1 = world se" by (simp add: s1 consoleLog_def)
  from readStep_spotifyD [OF 5]
  have e: "sp_playlists (world s1) = sp_playlists (world s)" "sameWorld (world s) (world s1)"
    by (simp_all add: w1 sameWorld_def)
  from sid mid w l e p readStep_spotifyD(3) [OF 2] show ?thesis
    unfolding snap by (intro exI [of _ sid] exI [of _ mid] exI [of _ srcPl] exI [of _ mirPl]
      exI [of _ ?sb] exI [of _ sc]) simp
qed

lemma syncMirrorPlaylist_Inr:
  assumes "syncMirrorPlaylist A s = Some (Inr (), s')"
  shows "\<exists>snap s1 s2. fetchPhase A (consoleLog LogStarting s) = Some (Inr snap, s1)
           \<and> applyPhase A snap s1 = (Inr (), s2) \<and> s' = consoleLog LogSyncCompleted s2"
proof (cases "fetchPhase A (consoleLog LogStarting s)")
  case None
  with assms show ?thesis by (simp add: syncMirrorPlaylist_def andThen_def)
next
  case (Some y)
  obtain r s1 where y: "y = (r, s1)" by (cases y)
  show ?thesis
  proof (cases r)
    case (Inl e)
    with assms Some y show ?thesis by (simp add: syncMirrorPlaylist_def andThen_def)
  next
    case (Inr snap)
    with Some y have f: "fetchPhase A (consoleLog LogStarting s) = Some (Inr snap, s1)" by simp
    from assms show ?thesis
      unfolding syncMirrorPlaylist_after_fetch [OF f] f
      by (cases "applyPhase A snap s1") (auto split: sum.splits)
  qed
qed

lemma no_change_iff:
  "tracksToAdd snap = [] \<and> tracksToRemove snap = []
   \<longleftrightarrow> set (map uri (eligibleTracks snap)) = set (map uri (mirrorTracks snap))"
  by (auto simp: tracksToAdd_def tracksToRemove_def currentMirrorUris_def shouldBeInMirrorUris_def
        filter_empty_conv)

lemma applyPhase_spotify:
  assumes "applyPhase (spotifyApi a (Some mid) c d) snap s = (Inr (), s')"
    and pl: "sp_playlists (world s) mid = Some pl"
  shows "sameWorld (world s) (world s')
       \<and> (if tracksToAdd snap = [] \<and> tracksToRemove snap = []
          then sp_playlists (world s') = sp_playlists (world s)
          else \<exists>rows. sp_playlists (world s')
                 = (sp_playlists (world s))(mid \<mapsto> removeUris (set (allCurrentUris snap)) pl @ rows)
               \<and> map track rows = map Some (urisInOrder snap))"
proof (cases "tracksToAdd snap = [] \<and> tracksToRemove snap = []")
  case True
  with assms(1) show ?thesis
    by (auto simp: applyPhase_def Let_def consoleLog_def)
next
  case False
  let ?s1 = "consoleLog (LogEligible (length (eligibleTracks snap))) s"
  have w: "world ?s1 = world s" by (simp add: consoleLog_def)
  from assms(1) False have "rebuild (spotifyApi a (Some mid) c d) snap ?s1 = (Inr (), s')"
    by (auto simp: applyPhase_def Let_def)
  from rebuild_spotify [OF this, of pl] pl False show ?thesis
    by (simp only: w if_False) blast
qed

lemma syncMirrorPlaylist_spotify:
  assumes ok: "syncMirrorPlaylist (spotifyApi a b c d) s = Some (Inr (), s')"
    and froz: "\<forall>k. sp_clock (world s) k = now"
  shows "\<exists>snap s1 sid mid srcPl mirPl sp s3.
           fetchPhase (spotifyApi a b c d) (consoleLog LogStarting s) = Some (Inr snap, s1)
         \<and> a = Some sid \<and> b = Some mid
         \<and> sp_playlists (world s) sid = Some srcPl \<and> sp_playlists (world s) mid = Some mirPl
         \<and> sourceTracks snap = sourceRows 0 srcPl
         \<and> tracksWithinLastYear snap = filter (\<lambda>t. c now \<le> addedAt t) (sourceRows 0 srcPl)
         \<and> recentlyPlayedUris snap
              = set (map uri (filter (\<lambda>t. d now \<le> playedAt t) (recentlyPlayedTracks snap)))
         \<and> mirrorTracks snap = mirrorRows 0 mirPl
         \<and> getRecentlyPlayedTracks (spotifyApi a b c d) sp = (Inr (recentlyPlayedTracks snap), s3)
         \<and> sp_history (world sp) = sp_history (world s)
         \<and> sameWorld (world s) (world s')
         \<and> (if tracksToAdd snap = [] \<and> tracksToRemove snap = []
            then sp_playlists (world s') = sp_playlists (world s)
            else \<exists>rows. sp_playlists (world s')
                   = (sp_playlists (world s))(mid \<mapsto> removeUris (set (allCurrentUris snap)) mirPl @ rows)
                 \<and> map track rows = map Some (urisInOrder snap))"
proof -
  let ?A = "spotifyApi a b c d"
  from syncMirrorPlaylist_Inr [OF ok] obtain snap s1 s2 where
    f: "fetchPhase ?A (consoleLog LogStarting s) = Some (Inr snap, s1)"
    and ap: "applyPhase ?A snap s1 = (Inr (), s2)" and s': "s' = consoleLog LogSyncCompleted s2"
    by blast
  have w0: "world (consoleLog LogStarting s) = world s" by (simp add: consoleLog_def)
  from fetchPhase_spotify [OF f, of now] froz obtain sid mid srcPl mirPl sp s3 where
    ids: "a = Some sid" "b = Some mid"
    and pls: "sp_playlists (world s) sid = Some srcPl" "sp_playlists (world s) mid = Some mirPl"
    and sn: "sourceTracks snap = sourceRows 0 srcPl"
      "tracksWithinLastYear snap = filter (\<lambda>t. c now \<le> addedAt t) (sourceRows 0 srcPl)"
      "recentlyPlayedUris snap
              = set (map uri (filter (\<lambda>t. d now \<le> playedAt t) (recentlyPlayedTracks snap)))"
      "mirrorTracks snap = mirrorRows 0 mirPl"
    and pl: "getRecentlyPlayedTracks ?A sp = (Inr (recentlyPlayedTracks snap), s3)"
      "sp_history (world sp) = sp_history (world s)"
    and e: "sp_playlists (world s1) = sp_playlists (world s)" "sameWorld (world s) (world s1)"
    unfolding w0 by blast
  from pls e have m1: "sp_playlists (world s1) mid = Some mirPl" by simp
  have w': "world s' = world s2" by (simp add: s' consoleLog_def)
  from applyPhase_spotify [OF ap [unfolded ids] m1] e
  have "sameWorld (world s) (world s')
       \<and> (if tracksToAdd snap = [] \<and> tracksToRemove snap = []
          then sp_playlists (world s') = sp_playlists (world s)
          else \<exists>rows. sp_playlists (world s')
                 = (sp_playlists (world s))(mid \<mapsto> removeUris (set (allCurrentUris snap)) mirPl @ rows)
               \<and> map track rows = map Some (urisInOrder snap))"
    unfolding w' by (auto intro: sameWorld_trans)
  with f ids pls sn pl show ?thesis by blast
qed

lemma mirrorRows_uris: "map uri (mirrorRows off pl) = List.map_filter uriOfRow pl"
  by (induction pl arbitrary: off)
     (simp_all add: mirrorRows_def List.map_filter_simps uriOfRow_def enumerate_simps split: option.splits)

lemma map_filter_valid:
  assumes "\<forall>row \<in> set pl. track row \<noteq> None \<and> track row \<noteq> Some []"
  shows "List.map_filter uriOfRow pl = List.map_filter track pl"
  using assms by (induction pl) (auto simp: List.map_filter_simps uriOfRow_def split: option.splits)

lemma removeUris_valid:
  assumes "\<forall>row \<in> set pl. track row \<noteq> None \<and> track row \<noteq> Some []"
  shows "removeUris (set (List.map_filter uriOfRow pl)) pl = []"
proof -
  have "\<forall>row \<in> set pl. \<exists>u. track row = Some u \<and> u \<in> set (List.map_filter uriOfRow pl)"
    using assms by (force simp: List.map_filter_def uriOfRow_def image_iff split: option.splits)
  then show ?thesis
    by (auto simp: removeUris_def filter_empty_conv split: option.splits)
qed

lemma rebuilt_tracks:
  "map track rows = map Some (urisInOrder snap)
   \<Longrightarrow> map track rows = map (\<lambda>t. Some (uri t)) (sort_key (\<lambda>t. - addedAt t) (eligibleTracks snap))"
  by (simp add: urisInOrder_def sortedTracks_def comp_def)

text \<open>
  The play history as the client reads it from the reference host. For a history that is
  newest first, the request with the cursor taken from the last event of a page returns the
  events after that page; so the loop collects the 100 most recent events, in at most three
  requests.
\<close>

lemma older_drop:
  assumes valid: "\<forall>e \<in> set H. played_at e \<noteq> None"
    and sorted: "sorted_wrt (\<lambda>e e'. the (played_at e') < the (played_at e)) H"
    and k: "0 < k" "k \<le> length H"
  shows "filter (\<lambda>h. case played_at h of None \<Rightarrow> False
                     | Some t \<Rightarrow> t < the (played_at (last (take k H)))) H = drop k H"
proof -
  let ?P = "\<lambda>e e'. the (played_at e') < the (played_at e)"
  let ?xs = "take k H" and ?ys = "drop k H"
  let ?T = "the (played_at (last ?xs))"
  let ?Q = "\<lambda>h. case played_at h of None \<Rightarrow> False | Some t \<Rightarrow> t < ?T"
  from k have ne: "?xs \<noteq> []" by auto
  have H: "H = ?xs @ ?ys" by simp
  from sorted have s: "sorted_wrt ?P (?xs @ ?ys)" by simp
  then have sx: "sorted_wrt ?P ?xs" and cross: "\<forall>x \<in> set ?xs. \<forall>y \<in> set ?ys. ?P x y"
    unfolding sorted_wrt_append by blast+
  from ne have xs: "?xs = butlast ?xs @ [last ?xs]" by simp
  from sx have "sorted_wrt ?P (butlast ?xs @ [last ?xs])" using xs by simp
  then have bl: "\<forall>x \<in> set (butlast ?xs). ?P x (last ?xs)"
    unfolding sorted_wrt_append by simp
  have Qv: "?Q h \<longleftrightarrow> the (played_at h) < ?T" if "h \<in> set H" for h
    using valid that by (cases "played_at h") auto
  have nx: "\<not> ?Q x" if "x \<in> set ?xs" for x
  proof -
    from that have "x \<in> set (butlast ?xs @ [last ?xs])" using xs by simp
    then have "x \<in> set (butlast ?xs) \<or> x = last ?xs" by auto
    moreover from that have "x \<in> set H" by (rule in_set_takeD)
    ultimately show ?thesis using bl Qv by auto
  qed
  have qy: "?Q y" if "y \<in> set ?ys" for y
  proof -
    from ne have "last ?xs \<in> set ?xs" by simp
    with cross that have "?P (last ?xs) y" by blast
    moreover from that have "y \<in> set H" by (rule in_set_dropD)
    ultimately show ?thesis using Qv by simp
  qed
  have "filter ?Q H = filter ?Q ?xs @ filter ?Q ?ys"
    by (subst H) (simp only: filter_append)
  also have "filter ?Q ?xs = []" using nx by (simp add: filter_empty_conv)
  also have "filter ?Q ?ys = ?ys" using qy by (simp add: filter_id_conv)
  finally show ?thesis by simp
qed

lemma sp_history_page:
  assumes g: "sp_getMyRecentlyPlayedTracks 50 (beforeOption bt) w = (Inr items, w')"
    and nf: "newestFirst (sp_history w)"
    and bt: "bt = (if j = 0 then None else played_at (last (take j (sp_history w))))"
    and j: "j = 0 \<or> j \<le> length (sp_history w)"
  shows "items = take 50 (drop j (sp_history w)) \<and> sp_history w' = sp_history w"
proof (cases "j = 0")
  case True
  with g bt show ?thesis
    by (auto simp: sp_getMyRecentlyPlayedTracks_def sp_request_Inr Let_def beforeOption_def)
next
  case False
  let ?H = "sp_history w"
  from False j have k: "0 < j" "j \<le> length ?H" by simp_all
  then have "take j ?H \<noteq> []" by auto
  then have "last (take j ?H) \<in> set (take j ?H)" by simp
  then have m: "last (take j ?H) \<in> set ?H" by (rule in_set_takeD)
  with nf obtain t where t: "played_at (last (take j ?H)) = Some t" "0 < t"
    by (cases "played_at (last (take j ?H))") (auto simp: newestFirst_def split: option.splits)
  from nf have v: "\<forall>e \<in> set ?H. played_at e \<noteq> None"
    and s: "sorted_wrt (\<lambda>e e'. the (played_at e') < the (played_at e)) ?H"
    by (auto simp: newestFirst_def split: option.splits)
  have f: "filter (\<lambda>h. case played_at h of None \<Rightarrow> False | Some t' \<Rightarrow> t' < t) ?H = drop j ?H"
    using older_drop [OF v s k] unfolding t(1) option.sel .
  from False bt t have b: "beforeOption bt = Some t" by (simp add: beforeOption_def)
  from g show ?thesis
    unfolding b by (auto simp: sp_getMyRecentlyPlayedTracks_def sp_request_Inr Let_def f)
qed

lemma playedTracksOf_valid:
  assumes "\<forall>e \<in> set items. h_track e \<noteq> None \<and> played_at e \<noteq> None"
  shows "length (playedTracksOf items) = length items"
  using assms by (induction items) (auto simp: playedTracksOf_def split: option.splits)

lemma sp_history_page':
  assumes g: "sp_getMyRecentlyPlayedTracks 50 (beforeOption bt) w = (Inr items, w')"
    and nf: "newestFirst (sp_history w)"
    and bt: "bt = (if j = 0 then None else played_at (last (take j (sp_history w))))"
    and j: "j = 0 \<or> sp_history w \<noteq> []"
  shows "items = take 50 (drop j (sp_history w)) \<and> sp_history w' = sp_history w"
proof -
  let ?H = "sp_history w"
  let ?k = "min j (length ?H)"
  have t: "take ?k ?H = take j ?H" by (simp add: min_def)
  have d: "drop ?k ?H = drop j ?H" by (simp add: min_def)
  have z: "?k = 0 \<longleftrightarrow> j = 0" using j by (auto simp: min_def)
  from bt have bt': "bt = (if ?k = 0 then None else played_at (last (take ?k ?H)))"
    unfolding t z .
  have "?k = 0 \<or> ?k \<le> length ?H" by simp
  from sp_history_page [OF g nf bt' this] show ?thesis unfolding d .
qed

lemma playedLoop_newestFirst:
  assumes nf: "newestFirst H"
  shows "A = spotifyApi a b c d \<Longrightarrow> sp_history (world s) = H
   \<Longrightarrow> (if m then rc \<le> 2 \<and> (rc = 2 \<longrightarrow> length H < 100)
                  \<and> tracks = playedTracksOf (take (50 * rc) H)
                  \<and> bt = (if rc = 0 then None else played_at (last (take (50 * rc) H)))
                  \<and> (0 < rc \<longrightarrow> 50 * (rc - 1) < length H)
        else tracks = playedTracksOf (take 100 H))
   \<Longrightarrow> playedLoop A bt m rc tracks s = (Inr r, s') \<Longrightarrow> r = playedTracksOf (take 100 H)"
proof (induction A bt m rc tracks s rule: playedLoop.induct)
  case (1 A bt m n tracks s)
  note A = "1.prems"(1) and hist = "1.prems"(2) and inv = "1.prems"(3) and run = "1.prems"(4)
  show ?case
  proof (cases m)
    case False
    with inv run show ?thesis by simp
  next
    case m: True
    from inv m have n2: "n \<le> 2" and small: "n = 2 \<longrightarrow> length H < 100"
      and tr: "tracks = playedTracksOf (take (50 * n) H)"
      and btv: "bt = (if n = 0 then None else played_at (last (take (50 * n) H)))"
      and prev: "0 < n \<longrightarrow> 50 * (n - 1) < length H"
      by simp_all
    have valid: "\<forall>e \<in> set (take k H). h_track e \<noteq> None \<and> played_at e \<noteq> None" for k
      using nf by (auto simp: newestFirst_def dest!: in_set_takeD split: option.splits)
    have len: "length tracks = min (length H) (50 * n)"
      unfolding tr using playedTracksOf_valid [OF valid, of "50 * n"] by simp
    have True: "m \<and> length tracks < 100 \<and> n < 3"
      using m len n2 small by auto
    let ?s1 = "consoleLog (LogMakingRequest (Suc n)) s"
    let ?c = "CRecentlyPlayed 50 (beforeOption bt)"
    let ?f = "getMyRecentlyPlayedTracks A 50 (beforeOption bt)"
    obtain r1 s2 where qs: "request ?c ?f ?s1 = (r1, s2)" by (cases "request ?c ?f ?s1")
    from run True qs obtain items where r1: "r1 = Inr items"
      by (subst (asm) playedLoop.simps) (auto simp: Let_def split: sum.splits)
    from qs r1 have gs: "sp_getMyRecentlyPlayedTracks 50 (beforeOption bt) (world s) = (Inr items, world s2)"
      by (auto simp: request_def A consoleLog_def split: prod.splits)
    have j: "50 * n = 0 \<or> sp_history (world s) \<noteq> []"
      using prev hist by (cases n) auto
    have btv': "bt = (if 50 * n = 0 then None else played_at (last (take (50 * n) (sp_history (world s)))))"
      using btv hist by simp
    from sp_history_page' [OF gs _ btv' j] nf hist
    have items: "items = take 50 (drop (50 * n) H)" and h2: "sp_history (world s2) = H"
      by simp_all
    note IH = "1.IH" [OF True refl refl qs [symmetric] r1]
    show ?thesis
    proof (cases "length items = 0")
      case z: True
      from run True qs r1 z have a: "playedLoop A bt False (Suc n) tracks s2 = (Inr r, s')"
        by (subst (asm) playedLoop.simps) (simp add: Let_def del: playedLoop_stop)
      from z items have le: "length H \<le> 50 * n" by simp
      with n2 small have "length H \<le> 100" by (cases "n = 2") auto
      with le tr have inv': "if False then n \<le> 2 \<and> (n = 2 \<longrightarrow> length H < 100)
                  \<and> tracks = playedTracksOf (take (50 * n) H)
                  \<and> bt = (if n = 0 then None else played_at (last (take (50 * n) H)))
                  \<and> (0 < n \<longrightarrow> 50 * (n - 1) < length H)
        else tracks = playedTracksOf (take 100 H)"
        by simp
      from IH(1) [OF z A h2 _ a] inv' show ?thesis by simp
    next
      case nz: False
      let ?tr = "tracks @ playedTracksOf items"
      let ?s3 = "consoleLog (LogRetrievedSoFar (length ?tr)) s2"
      have h3: "sp_history (world ?s3) = H" using h2 by (simp add: consoleLog_def)
      from nz items have lt: "50 * n < length H" by simp
      have tk: "take (50 * n) H @ items = take (50 * Suc n) H"
        unfolding items by (simp add: take_add [symmetric] add.commute)
      have tr': "?tr = playedTracksOf (take (50 * Suc n) H)"
        unfolding tr by (simp only: playedTracksOf_append [symmetric] tk)
      have len': "length ?tr = min (length H) (50 * Suc n)"
        unfolding tr' using playedTracksOf_valid [OF valid, of "50 * Suc n"] by simp
      from lt n2 small have n1: "n \<le> 1" by (cases "n = 2") auto
      show ?thesis
      proof (cases "length items > 0 \<and> length ?tr < 100")
        case c: True
        from run True qs r1 nz c
        have a: "playedLoop A (played_at (last items)) m (Suc n) ?tr ?s3 = (Inr r, s')"
          by (subst (asm) playedLoop.simps) (simp add: Let_def del: playedLoop_stop)
        from nz have "items \<noteq> []" by simp
        then have "last (take (50 * n) H @ items) = last items" by simp
        then have la: "played_at (last items) = played_at (last (take (50 * Suc n) H))"
          unfolding tk by simp
        from c len' have "Suc n = 2 \<longrightarrow> length H < 100" by auto
        with n1 tr' la lt m
        have inv'': "if m then Suc n \<le> 2 \<and> (Suc n = 2 \<longrightarrow> length H < 100)
                  \<and> ?tr = playedTracksOf (take (50 * Suc n) H)
                  \<and> played_at (last items) = (if Suc n = 0 then None else played_at (last (take (50 * Suc n) H)))
                  \<and> (0 < Suc n \<longrightarrow> 50 * (Suc n - 1) < length H)
          else ?tr = playedTracksOf (take 100 H)"
          by simp
        from IH(2) [OF nz refl refl c A h3 inv'' a] show ?thesis .
      next
        case c: False
        from run True qs r1 nz c
        have a: "playedLoop A bt False (Suc n) ?tr ?s3 = (Inr r, s')"
          by (subst (asm) playedLoop.simps) (simp add: Let_def del: playedLoop_stop)
        from c nz len' n1 have "n = 1"
          by (cases n) (auto simp: min_def split: if_splits)
        with tr' have inv'': "if False then Suc n \<le> 2 \<and> (Suc n = 2 \<longrightarrow> length H < 100)
                  \<and> ?tr = playedTracksOf (take (50 * Suc n) H)
                  \<and> bt = (if Suc n = 0 then None else played_at (last (take (50 * Suc n) H)))
                  \<and> (0 < Suc n \<longrightarrow> 50 * (Suc n - 1) < length H)
          else ?tr = playedTracksOf (take 100 H)"
          by simp
        from IH(3) [OF nz refl refl c A h3 _ a] inv'' show ?thesis by simp
      qed
    qed
  qed
qed

lemma getRecentlyPlayedTracks_newestFirst:
  assumes g: "getRecentlyPlayedTracks (spotifyApi a b c d) s = (Inr r, s')"
    and nf: "newestFirst (sp_history (world s))"
  shows "r = uniqueByUri (playedTracksOf (take 100 (sp_history (world s))))"
proof -
  let ?A = "spotifyApi a b c d"
  obtain r1 s1 where ts: "ensureAccessToken ?A s = (r1, s1)" by (cases "ensureAccessToken ?A s")
  obtain r2 s2 where ls: "playedLoop ?A None True 0 [] s1 = (r2, s2)" by (cases "playedLoop ?A None True 0 [] s1")
  from g ts ls obtain x where x: "r2 = Inr x" "r = uniqueByUri x"
    by (auto simp: getRecentlyPlayedTracks_def Let_def split: sum.splits)
  from ensureAccessToken_spotify [OF ts] have h: "sp_history (world s1) = sp_history (world s)" by simp
  have inv: "if True then (0::nat) \<le> 2 \<and> ((0::nat) = 2 \<longrightarrow> length (sp_history (world s)) < 100)
                  \<and> [] = playedTracksOf (take (50 * 0) (sp_history (world s)))
                  \<and> None = (if (0::nat) = 0 then None else played_at (last (take (50 * 0) (sp_history (world s)))))
                  \<and> (0 < (0::nat) \<longrightarrow> 50 * (0 - 1) < length (sp_history (world s)))
        else [] = playedTracksOf (take 100 (sp_history (world s)))"
    by simp
  from playedLoop_newestFirst [OF nf refl h inv ls [unfolded x]] x show ?thesis by simp
qed

lemma specLockedItems_events:
  "specLockedItems cutoff hist
     = uri ` {p \<in> set (playedTracksOf (take 100 hist)). cutoff \<le> playedAt p}"
proof -
  have "specLockedItems cutoff hist
      = {u. \<exists>e \<in> set (take 100 hist). h_track e = Some u \<and> (\<exists>t. played_at e = Some t \<and> cutoff \<le> t)}"
    unfolding specLockedItems_def by (force split: option.splits)
  also have "\<dots> = uri ` {p \<in> set (playedTracksOf (take 100 hist)). cutoff \<le> playedAt p}"
    unfolding set_playedTracksOf by force
  finally show ?thesis .
qed

lemma lockUnsplit_events:
  assumes "lockUnsplit cutoff hist"
    and "p \<in> set (playedTracksOf (take 100 hist))" and "q \<in> set (playedTracksOf (take 100 hist))"
    and "uri p = uri q"
  shows "(cutoff \<le> playedAt p) = (cutoff \<le> playedAt q)"
proof -
  from assms(2) obtain e where e: "e \<in> set (take 100 hist)" "h_track e = Some (uri p)"
    "played_at e = Some (playedAt p)"
    unfolding set_playedTracksOf by auto
  from assms(3) obtain e' where e': "e' \<in> set (take 100 hist)" "h_track e' = Some (uri q)"
    "played_at e' = Some (playedAt q)"
    unfolding set_playedTracksOf by auto
  from assms(1) e(1) e'(1) have "h_track e = h_track e'
        \<longrightarrow> (cutoff \<le> the (played_at e)) = (cutoff \<le> the (played_at e'))"
    unfolding lockUnsplit_def by blast
  with e e' assms(4) show ?thesis by simp
qed

lemma locked_unsplit:
  assumes "lockUnsplit cutoff hist"
  shows "set (map uri (filter (\<lambda>t. cutoff \<le> playedAt t) (uniqueByUri (playedTracksOf (take 100 hist)))))
           = specLockedItems cutoff hist"
proof -
  let ?F = "playedTracksOf (take 100 hist)"
  note U = uniqueByUri_events [of ?F]
  have "uri ` {p \<in> set (uniqueByUri ?F). cutoff \<le> playedAt p} = uri ` {p \<in> set ?F. cutoff \<le> playedAt p}"
  proof
    show "uri ` {p \<in> set (uniqueByUri ?F). cutoff \<le> playedAt p} \<subseteq> uri ` {p \<in> set ?F. cutoff \<le> playedAt p}"
      using U by blast
    show "uri ` {p \<in> set ?F. cutoff \<le> playedAt p} \<subseteq> uri ` {p \<in> set (uniqueByUri ?F). cutoff \<le> playedAt p}"
    proof
      fix u assume "u \<in> uri ` {p \<in> set ?F. cutoff \<le> playedAt p}"
      then obtain p where p: "p \<in> set ?F" "cutoff \<le> playedAt p" "u = uri p" by blast
      from p(1) U have "uri p \<in> uri ` set (uniqueByUri ?F)" by blast
      then obtain q where q: "q \<in> set (uniqueByUri ?F)" "uri q = uri p" by auto
      with U have qF: "q \<in> set ?F" by blast
      from lockUnsplit_events [OF assms p(1) qF] q(2) p(2) have "cutoff \<le> playedAt q" by simp
      with q p(3) have "u = uri q" "q \<in> {p \<in> set (uniqueByUri ?F). cutoff \<le> playedAt p}"
        by simp_all
      then show "u \<in> uri ` {p \<in> set (uniqueByUri ?F). cutoff \<le> playedAt p}" by (rule image_eqI)
    qed
  qed
  then show ?thesis unfolding specLockedItems_events by simp
qed

lemma sync_effect:
  assumes ok: "syncMirrorPlaylist (spotifyApi (Some sid) (Some mid) year days) s = Some (Inr (), s')"
    and frozen: "\<forall>k. sp_clock (world s) k = now"
    and source: "sp_playlists (world s) sid = Some srcPl"
    and mirror: "sp_playlists (world s) mid = Some mirPl"
    and valid: "\<forall>row \<in> set mirPl. track row \<noteq> None \<and> track row \<noteq> Some []"
    and history: "newestFirst (sp_history (world s))"
    and unsplit: "lockUnsplit (days now) (sp_history (world s))"
  shows "if set (map uri (specDesired (year now) (days now) srcPl (sp_history (world s))))
            = set (List.map_filter track mirPl)
         then sp_playlists (world s') = sp_playlists (world s)
         else \<exists>pl'. sp_playlists (world s') = (sp_playlists (world s))(mid \<mapsto> pl')
                \<and> map track pl'
                    = map (\<lambda>t. Some (uri t))
                        (sort_key (\<lambda>t. - addedAt t)
                           (specDesired (year now) (days now) srcPl (sp_history (world s))))"
proof -
  let ?A = "spotifyApi (Some sid) (Some mid) year days"
  let ?D = "specDesired (year now) (days now) srcPl (sp_history (world s))"
  from syncMirrorPlaylist_spotify [OF ok frozen] source mirror
  obtain snap sp s3 where
    sn: "tracksWithinLastYear snap = filter (\<lambda>t. year now \<le> addedAt t) (sourceRows 0 srcPl)"
      "recentlyPlayedUris snap
              = set (map uri (filter (\<lambda>t. days now \<le> playedAt t) (recentlyPlayedTracks snap)))"
      "mirrorTracks snap = mirrorRows 0 mirPl"
    and pl: "getRecentlyPlayedTracks ?A sp = (Inr (recentlyPlayedTracks snap), s3)"
      "sp_history (world sp) = sp_history (world s)"
    and eff: "if tracksToAdd snap = [] \<and> tracksToRemove snap = []
            then sp_playlists (world s') = sp_playlists (world s)
            else \<exists>rows. sp_playlists (world s')
                   = (sp_playlists (world s))(mid \<mapsto> removeUris (set (allCurrentUris snap)) mirPl @ rows)
                 \<and> map track rows = map Some (urisInOrder snap)"
    by auto
  from history pl(2) have "newestFirst (sp_history (world sp))" by simp
  from getRecentlyPlayedTracks_newestFirst [OF pl(1) this]
  have played: "recentlyPlayedTracks snap = uniqueByUri (playedTracksOf (take 100 (sp_history (world s))))"
    by (simp only: pl(2))
  have locked: "recentlyPlayedUris snap = specLockedItems (days now) (sp_history (world s))"
    unfolding sn(2) played by (rule locked_unsplit [OF unsplit])
  have el: "eligibleTracks snap = ?D"
    unfolding eligibleTracks_def sn(1) locked specDesired_def specSourceEntries_def
      sourceRows_explicit [of 0]
    by (simp add: conj_commute)
  have cur: "map uri (mirrorTracks snap) = List.map_filter track mirPl"
    by (simp add: sn(3) mirrorRows_uris map_filter_valid [OF valid])
  have gone: "removeUris (set (allCurrentUris snap)) mirPl = []"
    by (simp add: allCurrentUris_def sn(3) mirrorRows_uris removeUris_valid [OF valid])
  have nc: "tracksToAdd snap = [] \<and> tracksToRemove snap = []
      \<longleftrightarrow> set (map uri ?D) = set (List.map_filter track mirPl)"
    by (simp only: no_change_iff cur el)
  show ?thesis
  proof (cases "set (map uri ?D) = set (List.map_filter track mirPl)")
    case True
    with nc eff show ?thesis by simp
  next
    case False
    with nc eff obtain rows where r: "sp_playlists (world s') = (sp_playlists (world s))(mid \<mapsto> rows)"
      and t: "map track rows = map Some (urisInOrder snap)"
      by (auto simp: gone)
    from rebuilt_tracks [OF t] have "map track rows = map (\<lambda>t. Some (uri t)) (sort_key (\<lambda>t. - addedAt t) ?D)"
      by (simp only: el)
    with r False show ?thesis by (simp only: if_False) blast
  qed
qed

text \<open>
  C1, amended. On the reference host with the clock at \<open>now\<close> during the call, a mirror
  whose rows all carry a track with a URI, and a play history that is newest first (each
  event with a track and a time of play, the times strictly decreasing) in which no item
  has, among the 100 most recent events, an event inside the lock period and another
  outside it. The desired entries (\<open>specDesired\<close>) are the entries of the source playlist
  added at or after \<open>now\<close> minus one year whose item has no event at or after \<open>now\<close> minus
  five days among the 100 most recent events. When the set of their URIs differs from the
  set of the URIs in the mirror, a successful call leaves the mirror with exactly the URIs
  of the desired entries, one row per entry, stably sorted by descending \<open>addedAt\<close>. When
  the two sets are equal (the mirror is at most misordered, or holds a desired item more
  than once), the call leaves the mirror as it is.
\<close>

theorem sync_converges_when_sets_differ:
  assumes ok: "syncMirrorPlaylist (spotifyApi (Some sid) (Some mid) year days) s = Some (Inr (), s')"
    and frozen: "\<forall>k. sp_clock (world s) k = now"
    and source: "sp_playlists (world s) sid = Some srcPl"
    and mirror: "sp_playlists (world s) mid = Some mirPl"
    and valid: "\<forall>row \<in> set mirPl. track row \<noteq> None \<and> track row \<noteq> Some []"
    and history: "newestFirst (sp_history (world s))"
    and unsplit: "lockUnsplit (days now) (sp_history (world s))"
  shows "(set (map uri (specDesired (year now) (days now) srcPl (sp_history (world s))))
              \<noteq> set (List.map_filter track mirPl)
            \<longrightarrow> (\<exists>pl'. sp_playlists (world s') mid = Some pl'
                     \<and> map track pl'
                         = map (\<lambda>t. Some (uri t))
                             (sort_key (\<lambda>t. - addedAt t)
                                (specDesired (year now) (days now) srcPl (sp_history (world s))))))
       \<and> (set (map uri (specDesired (year now) (days now) srcPl (sp_history (world s))))
              = set (List.map_filter track mirPl)
            \<longrightarrow> sp_playlists (world s') mid = Some mirPl)
       \<and> sorted_wrt (\<lambda>x y. addedAt x \<ge> addedAt y)
            (sort_key (\<lambda>t. - addedAt t)
               (specDesired (year now) (days now) srcPl (sp_history (world s))))"
proof -
  let ?D = "specDesired (year now) (days now) srcPl (sp_history (world s))"
  note eff = sync_effect [OF ok frozen source mirror valid history unsplit]
  have 1: "set (map uri ?D) \<noteq> set (List.map_filter track mirPl)
            \<longrightarrow> (\<exists>pl'. sp_playlists (world s') mid = Some pl'
                     \<and> map track pl' = map (\<lambda>t. Some (uri t)) (sort_key (\<lambda>t. - addedAt t) ?D))"
  proof
    assume "set (map uri ?D) \<noteq> set (List.map_filter track mirPl)"
    with eff obtain pl' where "sp_playlists (world s') = (sp_playlists (world s))(mid \<mapsto> pl')"
      and "map track pl' = map (\<lambda>t. Some (uri t)) (sort_key (\<lambda>t. - addedAt t) ?D)"
      by auto
    then show "\<exists>pl'. sp_playlists (world s') mid = Some pl'
                     \<and> map track pl' = map (\<lambda>t. Some (uri t)) (sort_key (\<lambda>t. - addedAt t) ?D)"
      by (intro exI [of _ pl']) simp
  qed
  have 2: "set (map uri ?D) = set (List.map_filter track mirPl)
            \<longrightarrow> sp_playlists (world s') mid = Some mirPl"
    using eff mirror by simp
  have "sorted (map (\<lambda>t. - addedAt t) (sort_key (\<lambda>t. - addedAt t) ?D))"
    by (rule sorted_sort_key)
  then have 3: "sorted_wrt (\<lambda>x y. addedAt x \<ge> addedAt y) (sort_key (\<lambda>t. - addedAt t) ?D)"
    by (simp add: sorted_map)
  from 1 2 3 show ?thesis by blast
qed

text \<open>
  C1, as stated, fails for a mirror that is only misordered: with B then C in the mirror and
  the desired list C then B, a successful call leaves B then C. From an empty mirror the same
  source gives C then B.
\<close>

theorem misordered_mirror_is_left_alone:
  "mirrorAfter exampleApi (startState misordered) = Some [Some ''B'', Some ''C'']
   \<and> mirrorAfter exampleApi (startState (emptied misordered)) = Some [Some ''C'', Some ''B'']"
  by code_simp

theorem sync_converges_when_sets_differ_witness:
  "(\<exists>s'. syncMirrorPlaylist exampleApi (startState specExample) = Some (Inr (), s')
        \<and> (\<exists>pl'. sp_playlists (world s') ''mir'' = Some pl' \<and> map track pl' = [Some ''C'']))
   \<and> (\<exists>s'. syncMirrorPlaylist exampleApi (startState settled) = Some (Inr (), s')
        \<and> sp_playlists (world s') ''mir'' = Some [\<lparr>added_at = 999827200000, track = Some ''C''\<rparr>])"
proof -
  note T = sync_converges_when_sets_differ
    [of "''src''" "''mir''" "\<lambda>t. t - 31536000000" "\<lambda>t. t - 432000000", folded exampleApi_def]
  let ?srcPl = "[\<lparr>added_at = 965440000000, track = Some ''A''\<rparr>,
                 \<lparr>added_at = 999136000000, track = Some ''B''\<rparr>,
                 \<lparr>added_at = 999827200000, track = Some ''C''\<rparr>]"
  let ?hist = "[\<lparr>h_track = Some ''B'', played_at = Some 999913600000\<rparr>]"
  have frozen: "\<forall>k. sp_clock (world (startState w)) k = 1000000000000"
    if "sp_clock w = (\<lambda>k. 1000000000000)" for w
    using that by (simp add: startState_def)
  have c1: "sp_clock specExample = (\<lambda>k. 1000000000000)" by (simp add: specExample_def)
  have c2: "sp_clock settled = (\<lambda>k. 1000000000000)" by (simp add: settled_def specExample_def)
  have "map_option fst (syncMirrorPlaylist exampleApi (startState specExample)) = Some (Inr ())"
    by code_simp
  then obtain t1 where ok1: "syncMirrorPlaylist exampleApi (startState specExample) = Some (Inr (), t1)"
    by (cases "syncMirrorPlaylist exampleApi (startState specExample)") auto
  have "map_option fst (syncMirrorPlaylist exampleApi (startState settled)) = Some (Inr ())"
    by code_simp
  then obtain t2 where ok2: "syncMirrorPlaylist exampleApi (startState settled) = Some (Inr (), t2)"
    by (cases "syncMirrorPlaylist exampleApi (startState settled)") auto
  have s1: "sp_playlists (world (startState specExample)) ''src'' = Some ?srcPl"
    and m1: "sp_playlists (world (startState specExample)) ''mir''
              = Some [\<lparr>added_at = 965440000000, track = Some ''A''\<rparr>]"
    and s2: "sp_playlists (world (startState settled)) ''src'' = Some ?srcPl"
    and m2: "sp_playlists (world (startState settled)) ''mir''
              = Some [\<lparr>added_at = 999827200000, track = Some ''C''\<rparr>]"
    and h1: "sp_history (world (startState specExample)) = ?hist"
    and h2: "sp_history (world (startState settled)) = ?hist"
    by (simp_all add: startState_def specExample_def settled_def)
  have v1: "\<forall>row \<in> set [\<lparr>added_at = 965440000000, track = Some ''A''\<rparr>]. track row \<noteq> None \<and> track row \<noteq> Some []"
    and v2: "\<forall>row \<in> set [\<lparr>added_at = 999827200000, track = Some ''C''\<rparr>]. track row \<noteq> None \<and> track row \<noteq> Some []"
    by simp_all
  have nf: "newestFirst ?hist" by (simp add: newestFirst_def)
  have un: "lockUnsplit (1000000000000 - 432000000) ?hist" by (simp add: lockUnsplit_def)
  have d: "specDesired (1000000000000 - 31536000000) (1000000000000 - 432000000) ?srcPl ?hist
             = [\<lparr>uri = ''C'', addedAt = 999827200000\<rparr>]"
    by code_simp
  from T [OF ok1 frozen [OF c1] s1 m1 v1] nf un
  have "\<exists>pl'. sp_playlists (world t1) ''mir'' = Some pl' \<and> map track pl' = [Some ''C'']"
    unfolding h1 d by (simp add: List.map_filter_simps)
  with ok1 have a: "\<exists>s'. syncMirrorPlaylist exampleApi (startState specExample) = Some (Inr (), s')
        \<and> (\<exists>pl'. sp_playlists (world s') ''mir'' = Some pl' \<and> map track pl' = [Some ''C''])"
    by (intro exI [of _ t1] conjI)
  from T [OF ok2 frozen [OF c2] s2 m2 v2] nf un
  have "sp_playlists (world t2) ''mir'' = Some [\<lparr>added_at = 999827200000, track = Some ''C''\<rparr>]"
    unfolding h2 d by (simp add: List.map_filter_simps)
  with ok2 have b: "\<exists>s'. syncMirrorPlaylist exampleApi (startState settled) = Some (Inr (), s')
        \<and> sp_playlists (world s') ''mir'' = Some [\<lparr>added_at = 999827200000, track = Some ''C''\<rparr>]"
    by (intro exI [of _ t2] conjI)
  from a b show ?thesis by (rule conjI)
qed

text \<open>
  C8, as stated, fails: with two source entries for track C and an empty mirror, a successful
  call leaves the mirror with C twice.
\<close>

theorem duplicate_source_entries_are_mirrored:
  "mirrorAfter exampleApi (startState duplicated) = Some [Some ''C'', Some ''C'']"
  by code_simp

text \<open>
  C8, amended. Under the conditions of C1: after a successful call that rebuilds the mirror,
  no item is twice in the mirror exactly when no two desired entries of the source playlist
  carry the same URI; a call that finds the two sets of URIs equal leaves the mirror as it
  is, duplicates included.
\<close>

theorem mirror_duplicates_after_sync:
  assumes ok: "syncMirrorPlaylist (spotifyApi (Some sid) (Some mid) year days) s = Some (Inr (), s')"
    and frozen: "\<forall>k. sp_clock (world s) k = now"
    and source: "sp_playlists (world s) sid = Some srcPl"
    and mirror: "sp_playlists (world s) mid = Some mirPl"
    and valid: "\<forall>row \<in> set mirPl. track row \<noteq> None \<and> track row \<noteq> Some []"
    and history: "newestFirst (sp_history (world s))"
    and unsplit: "lockUnsplit (days now) (sp_history (world s))"
  shows "(set (map uri (specDesired (year now) (days now) srcPl (sp_history (world s))))
              \<noteq> set (List.map_filter track mirPl)
            \<longrightarrow> (\<exists>pl'. sp_playlists (world s') mid = Some pl'
                     \<and> (distinct (map track pl')
                          \<longleftrightarrow> distinct (map uri (specDesired (year now) (days now) srcPl
                                                    (sp_history (world s)))))))
       \<and> (set (map uri (specDesired (year now) (days now) srcPl (sp_history (world s))))
              = set (List.map_filter track mirPl)
            \<longrightarrow> sp_playlists (world s') mid = Some mirPl)"
proof -
  let ?D = "specDesired (year now) (days now) srcPl (sp_history (world s))"
  note eff = sync_effect [OF ok frozen source mirror valid history unsplit]
  have d: "distinct (map (\<lambda>t. Some (uri t)) (sort_key (\<lambda>t. - addedAt t) ?D)) \<longleftrightarrow> distinct (map uri ?D)"
  proof -
    have "mset (map uri (sort_key (\<lambda>t. - addedAt t) ?D)) = mset (map uri ?D)"
      by simp
    then have "distinct (map uri (sort_key (\<lambda>t. - addedAt t) ?D)) \<longleftrightarrow> distinct (map uri ?D)"
      by (rule mset_eq_imp_distinct_iff)
    moreover have "map (\<lambda>t. Some (uri t)) (sort_key (\<lambda>t. - addedAt t) ?D)
                     = map Some (map uri (sort_key (\<lambda>t. - addedAt t) ?D))"
      by simp
    moreover have "distinct (map Some xs) \<longleftrightarrow> distinct xs" for xs :: "uri list"
      by (simp add: distinct_map)
    ultimately show ?thesis by (simp only:)
  qed
  show ?thesis
  proof (intro conjI impI)
    assume "set (map uri ?D) \<noteq> set (List.map_filter track mirPl)"
    with eff obtain pl' where "sp_playlists (world s') = (sp_playlists (world s))(mid \<mapsto> pl')"
      and "map track pl' = map (\<lambda>t. Some (uri t)) (sort_key (\<lambda>t. - addedAt t) ?D)"
      by auto
    with d show "\<exists>pl'. sp_playlists (world s') mid = Some pl'
                     \<and> (distinct (map track pl') \<longleftrightarrow> distinct (map uri ?D))"
      by (intro exI [of _ pl']) simp
  next
    assume "set (map uri ?D) = set (List.map_filter track mirPl)"
    with eff mirror show "sp_playlists (world s') mid = Some mirPl" by simp
  qed
qed

lemma sync_no_change:
  assumes "fetchPhase A (consoleLog LogStarting s) = Some (Inr snap, s1)"
    and "tracksToAdd snap = [] \<and> tracksToRemove snap = []"
  shows "\<exists>s'. syncMirrorPlaylist A s = Some (Inr (), s') \<and> writes s' = writes s"
  using assms fetchPhase_writes [OF assms(1)]
  by (simp add: syncMirrorPlaylist_after_fetch [OF assms(1)] applyPhase_def Let_def)

lemma map_filter_append: "List.map_filter f (xs @ ys) = List.map_filter f xs @ List.map_filter f ys"
  by (simp add: List.map_filter_def)

lemma set_map_filter: "set (List.map_filter f xs) = {y. \<exists>x \<in> set xs. f x = Some y}"
  by (induction xs) (auto simp: List.map_filter_simps split: option.splits)

lemma map_filter_Nil: "(\<forall>x \<in> set xs. f x = None) \<Longrightarrow> List.map_filter f xs = []"
  by (induction xs) (simp_all add: List.map_filter_simps)

lemma map_filter_removed: "List.map_filter uriOfRow (removeUris (set (List.map_filter uriOfRow pl)) pl) = []"
proof (rule map_filter_Nil, rule ballI)
  fix row
  assume r: "row \<in> set (removeUris (set (List.map_filter uriOfRow pl)) pl)"
  show "uriOfRow row = None"
  proof (cases "uriOfRow row")
    case (Some u)
    then have t: "track row = Some u"
      by (simp add: uriOfRow_def split: option.splits if_splits)
    from r have "row \<in> set pl" by (simp add: removeUris_def)
    with Some have "u \<in> set (List.map_filter uriOfRow pl)"
      unfolding set_map_filter by blast
    with r t show ?thesis by (simp add: removeUris_def)
  qed simp
qed

lemma map_filter_added:
  "map track rows = map Some us \<Longrightarrow> List.map_filter uriOfRow rows = filter (\<lambda>u. u \<noteq> []) us"
proof (induction rows arbitrary: us)
  case Nil
  then show ?case by (simp add: List.map_filter_simps)
next
  case (Cons row rows)
  then obtain u us' where us: "us = u # us'" and t: "track row = Some u"
    and rest: "map track rows = map Some us'"
    by (cases us) auto
  from Cons.IH [OF rest] t show ?case
    by (simp add: us List.map_filter_simps uriOfRow_def)
qed

lemma sourceRows_uris:
  assumes "\<forall>row \<in> set pl. track row \<noteq> Some []"
  shows "\<forall>t \<in> set (sourceRows off pl). uri t \<noteq> []"
proof
  fix t assume "t \<in> set (sourceRows off pl)"
  then obtain row where "row \<in> set pl"
    and "(case track row of None \<Rightarrow> None | Some u \<Rightarrow> Some \<lparr>uri = u, addedAt = added_at row\<rparr>) = Some t"
    unfolding sourceRows_def set_map_filter by blast
  with assms show "uri t \<noteq> []"
    by (cases "track row") auto
qed

theorem mirror_duplicates_after_sync_witness:
  "(\<exists>s'. syncMirrorPlaylist exampleApi (startState duplicated) = Some (Inr (), s')
        \<and> (\<exists>pl'. sp_playlists (world s') ''mir'' = Some pl' \<and> \<not> distinct (map track pl')))
   \<and> (\<exists>s'. syncMirrorPlaylist exampleApi (startState specExample) = Some (Inr (), s')
        \<and> (\<exists>pl'. sp_playlists (world s') ''mir'' = Some pl' \<and> distinct (map track pl')))
   \<and> (\<exists>s'. syncMirrorPlaylist exampleApi (startState settled) = Some (Inr (), s')
        \<and> sp_playlists (world s') ''mir'' = Some [\<lparr>added_at = 999827200000, track = Some ''C''\<rparr>])"
proof -
  note T = mirror_duplicates_after_sync
    [of "''src''" "''mir''" "\<lambda>t. t - 31536000000" "\<lambda>t. t - 432000000", folded exampleApi_def]
  let ?srcPl = "[\<lparr>added_at = 965440000000, track = Some ''A''\<rparr>,
                 \<lparr>added_at = 999136000000, track = Some ''B''\<rparr>,
                 \<lparr>added_at = 999827200000, track = Some ''C''\<rparr>]"
  let ?dupPl = "[\<lparr>added_at = 999740800000, track = Some ''C''\<rparr>,
                 \<lparr>added_at = 999827200000, track = Some ''C''\<rparr>]"
  let ?hist = "[\<lparr>h_track = Some ''B'', played_at = Some 999913600000\<rparr>]"
  have frozen: "\<forall>k. sp_clock (world (startState w)) k = 1000000000000"
    if "sp_clock w = (\<lambda>k. 1000000000000)" for w
    using that by (simp add: startState_def)
  have c0: "sp_clock specExample = (\<lambda>k. 1000000000000)" by (simp add: specExample_def)
  have c1: "sp_clock duplicated = (\<lambda>k. 1000000000000)" by (simp add: duplicated_def specExample_def)
  have c2: "sp_clock settled = (\<lambda>k. 1000000000000)" by (simp add: settled_def specExample_def)
  have "map_option fst (syncMirrorPlaylist exampleApi (startState specExample)) = Some (Inr ())"
    by code_simp
  then obtain t0 where ok0: "syncMirrorPlaylist exampleApi (startState specExample) = Some (Inr (), t0)"
    by (cases "syncMirrorPlaylist exampleApi (startState specExample)") auto
  have "map_option fst (syncMirrorPlaylist exampleApi (startState duplicated)) = Some (Inr ())"
    by code_simp
  then obtain t1 where ok1: "syncMirrorPlaylist exampleApi (startState duplicated) = Some (Inr (), t1)"
    by (cases "syncMirrorPlaylist exampleApi (startState duplicated)") auto
  have "map_option fst (syncMirrorPlaylist exampleApi (startState settled)) = Some (Inr ())"
    by code_simp
  then obtain t2 where ok2: "syncMirrorPlaylist exampleApi (startState settled) = Some (Inr (), t2)"
    by (cases "syncMirrorPlaylist exampleApi (startState settled)") auto
  have s0: "sp_playlists (world (startState specExample)) ''src'' = Some ?srcPl"
    and m0: "sp_playlists (world (startState specExample)) ''mir''
              = Some [\<lparr>added_at = 965440000000, track = Some ''A''\<rparr>]"
    and s1: "sp_playlists (world (startState duplicated)) ''src'' = Some ?dupPl"
    and m1: "sp_playlists (world (startState duplicated)) ''mir'' = Some []"
    and s2: "sp_playlists (world (startState settled)) ''src'' = Some ?srcPl"
    and m2: "sp_playlists (world (startState settled)) ''mir''
              = Some [\<lparr>added_at = 999827200000, track = Some ''C''\<rparr>]"
    and h0: "sp_history (world (startState specExample)) = ?hist"
    and h1: "sp_history (world (startState duplicated)) = []"
    and h2: "sp_history (world (startState settled)) = ?hist"
    by (simp_all add: startState_def specExample_def settled_def duplicated_def)
  have v0: "\<forall>row \<in> set [\<lparr>added_at = 965440000000, track = Some ''A''\<rparr>]. track row \<noteq> None \<and> track row \<noteq> Some []"
    and v1: "\<forall>row \<in> set ([] :: playlist_item list). track row \<noteq> None \<and> track row \<noteq> Some []"
    and v2: "\<forall>row \<in> set [\<lparr>added_at = 999827200000, track = Some ''C''\<rparr>]. track row \<noteq> None \<and> track row \<noteq> Some []"
    by simp_all
  have nf: "newestFirst ?hist" "newestFirst []" by (simp_all add: newestFirst_def)
  have un: "lockUnsplit (1000000000000 - 432000000) ?hist" "lockUnsplit (1000000000000 - 432000000) []"
    by (simp_all add: lockUnsplit_def)
  have d: "specDesired (1000000000000 - 31536000000) (1000000000000 - 432000000) ?srcPl ?hist
             = [\<lparr>uri = ''C'', addedAt = 999827200000\<rparr>]"
    and d1: "specDesired (1000000000000 - 31536000000) (1000000000000 - 432000000) ?dupPl []
             = [\<lparr>uri = ''C'', addedAt = 999740800000\<rparr>, \<lparr>uri = ''C'', addedAt = 999827200000\<rparr>]"
    by code_simp+
  from T [OF ok1 frozen [OF c1] s1 m1 v1] nf(2) un(2)
  have "\<exists>pl'. sp_playlists (world t1) ''mir'' = Some pl' \<and> \<not> distinct (map track pl')"
    unfolding h1 d1 by (simp add: List.map_filter_simps)
  with ok1 have a: "\<exists>s'. syncMirrorPlaylist exampleApi (startState duplicated) = Some (Inr (), s')
        \<and> (\<exists>pl'. sp_playlists (world s') ''mir'' = Some pl' \<and> \<not> distinct (map track pl'))"
    by (intro exI [of _ t1] conjI)
  from T [OF ok0 frozen [OF c0] s0 m0 v0] nf(1) un(1)
  have "\<exists>pl'. sp_playlists (world t0) ''mir'' = Some pl' \<and> distinct (map track pl')"
    unfolding h0 d by (simp add: List.map_filter_simps)
  with ok0 have b: "\<exists>s'. syncMirrorPlaylist exampleApi (startState specExample) = Some (Inr (), s')
        \<and> (\<exists>pl'. sp_playlists (world s') ''mir'' = Some pl' \<and> distinct (map track pl'))"
    by (intro exI [of _ t0] conjI)
  from T [OF ok2 frozen [OF c2] s2 m2 v2] nf(1) un(1)
  have "sp_playlists (world t2) ''mir'' = Some [\<lparr>added_at = 999827200000, track = Some ''C''\<rparr>]"
    unfolding h2 d by (simp add: List.map_filter_simps)
  with ok2 have c: "\<exists>s'. syncMirrorPlaylist exampleApi (startState settled) = Some (Inr (), s')
        \<and> sp_playlists (world s') ''mir'' = Some [\<lparr>added_at = 999827200000, track = Some ''C''\<rparr>]"
    by (intro exI [of _ t2] conjI)
  from a b c show ?thesis by blast
qed

text \<open>
  C5 fails when a source track has the empty string as its URI. \<open>getSourcePlaylistTracks\<close>
  keeps every row with a track (\<open>if (item.track)\<close>), \<open>getMirrorPlaylistTracks\<close> keeps a row
  only when the URI of its track is non-empty (\<open>if (track && track.uri)\<close>). With such a
  track and track C in the source and an empty mirror, the first call puts both URIs into
  the mirror; nothing changes on the host; the second call reads C alone from the mirror,
  computes a \<open>tracksToAdd\<close> that holds the track with the empty URI, and rebuilds: it removes
  C and adds both URIs again.
\<close>

theorem second_sync_rebuilds_for_empty_uri:
  "map_option (map track) (sp_playlists emptyUri ''src'') = Some [Some [], Some ''C'']
   \<and> mirrorAfter exampleApi (startState emptyUri) = Some [Some ''C'', Some []]
   \<and> map_option (\<lambda>p. (map uri (mirrorTracks (projr (fst p))),
                       map uri (tracksToAdd (projr (fst p))),
                       map uri (tracksToRemove (projr (fst p)))))
        (fetchPhase exampleApi
           (consoleLog LogStarting (snd (the (syncMirrorPlaylist exampleApi (startState emptyUri))))))
       = Some ([''C''], [[]], [])
   \<and> syncTwice exampleApi (startState emptyUri)
       = Some (Inr (), [CRemove ''mir'' [''C''], CAdd ''mir'' [''C'', []] None])"
  by code_simp

text \<open>
  Apart from that case the second call changes nothing. On the reference host, with distinct
  source and mirror playlists, the clock at \<open>now\<close> throughout, and no empty URI in the
  source: after a successful call, a second call whose read phase succeeds computes an empty
  \<open>tracksToAdd\<close> and an empty \<open>tracksToRemove\<close>, succeeds, and issues no write request.
\<close>

theorem second_sync_changes_nothing:
  assumes ids: "sid \<noteq> mid"
    and frozen: "\<forall>k. sp_clock (world s) k = now"
    and first: "syncMirrorPlaylist (spotifyApi (Some sid) (Some mid) year days) s = Some (Inr (), s1)"
    and second: "fetchPhase (spotifyApi (Some sid) (Some mid) year days) (consoleLog LogStarting s1)
                   = Some (Inr snap2, s2)"
    and source: "sp_playlists (world s) sid = Some srcPl"
    and uris: "\<forall>row \<in> set srcPl. track row \<noteq> Some []"
  shows "tracksToAdd snap2 = [] \<and> tracksToRemove snap2 = []
       \<and> (\<exists>s3. syncMirrorPlaylist (spotifyApi (Some sid) (Some mid) year days) s1 = Some (Inr (), s3)
               \<and> writes s3 = writes s1)"
proof -
  let ?A = "spotifyApi (Some sid) (Some mid) year days"
  from syncMirrorPlaylist_spotify [OF first frozen] source obtain snap1 mirPl sp1 sq1 where
    sn1: "sourceTracks snap1 = sourceRows 0 srcPl"
      "tracksWithinLastYear snap1 = filter (\<lambda>t. year now \<le> addedAt t) (sourceRows 0 srcPl)"
      "recentlyPlayedUris snap1
              = set (map uri (filter (\<lambda>t. days now \<le> playedAt t) (recentlyPlayedTracks snap1)))"
      "mirrorTracks snap1 = mirrorRows 0 mirPl"
    and m1: "sp_playlists (world s) mid = Some mirPl"
    and p1: "getRecentlyPlayedTracks ?A sp1 = (Inr (recentlyPlayedTracks snap1), sq1)"
      "sp_history (world sp1) = sp_history (world s)"
    and sw: "sameWorld (world s) (world s1)"
    and eff: "if tracksToAdd snap1 = [] \<and> tracksToRemove snap1 = []
            then sp_playlists (world s1) = sp_playlists (world s)
            else \<exists>rows. sp_playlists (world s1)
                   = (sp_playlists (world s))(mid \<mapsto> removeUris (set (allCurrentUris snap1)) mirPl @ rows)
                 \<and> map track rows = map Some (urisInOrder snap1)"
    by auto
  let ?s0 = "consoleLog LogStarting s1"
  have w0: "world ?s0 = world s1" by (simp add: consoleLog_def)
  from frozen sw have frozen1: "\<forall>k. sp_clock (world ?s0) k = now"
    by (simp add: w0 sameWorld_def)
  from eff ids source have src1: "sp_playlists (world s1) sid = Some srcPl"
    by (auto split: if_splits)
  from fetchPhase_spotify [OF second frozen1] src1 obtain mirPl2 sp2 sq2 where
    sn2: "tracksWithinLastYear snap2 = filter (\<lambda>t. year now \<le> addedAt t) (sourceRows 0 srcPl)"
      "recentlyPlayedUris snap2
              = set (map uri (filter (\<lambda>t. days now \<le> playedAt t) (recentlyPlayedTracks snap2)))"
      "mirrorTracks snap2 = mirrorRows 0 mirPl2"
    and m2: "sp_playlists (world s1) mid = Some mirPl2"
    and p2: "getRecentlyPlayedTracks ?A sp2 = (Inr (recentlyPlayedTracks snap2), sq2)"
      "sp_history (world sp2) = sp_history (world s1)"
    unfolding w0 by auto
  from p1(2) p2(2) sw have "sp_history (world sp1) = sp_history (world sp2)"
    by (simp add: sameWorld_def)
  from getRecentlyPlayedTracks_spotify_det [OF p1(1) p2(1) this]
  have played: "recentlyPlayedTracks snap2 = recentlyPlayedTracks snap1" by simp
  have el: "eligibleTracks snap2 = eligibleTracks snap1"
    by (simp add: eligibleTracks_def sn1(2,3) sn2(1,2) played)
  have cur: "set (map uri (mirrorTracks snap2)) = set (map uri (eligibleTracks snap1))"
  proof (cases "tracksToAdd snap1 = [] \<and> tracksToRemove snap1 = []")
    case True
    with eff m1 m2 have "mirPl2 = mirPl" by simp
    with True show ?thesis
      by (simp add: sn1(4) sn2(3) no_change_iff)
  next
    case False
    with eff m2 obtain rows where mp: "mirPl2 = removeUris (set (allCurrentUris snap1)) mirPl @ rows"
      and tr: "map track rows = map Some (urisInOrder snap1)"
      by auto
    have "set (eligibleTracks snap1) \<subseteq> set (sourceRows 0 srcPl)"
      by (auto simp: eligibleTracks_def sn1(2))
    with sourceRows_uris [OF uris, of 0] have "\<forall>u \<in> set (urisInOrder snap1). u \<noteq> []"
      by (auto simp: urisInOrder_def sortedTracks_def)
    then have "filter (\<lambda>u. u \<noteq> []) (urisInOrder snap1) = urisInOrder snap1"
      by (simp add: filter_id_conv)
    with map_filter_added [OF tr] have "List.map_filter uriOfRow rows = urisInOrder snap1" by simp
    then have "map uri (mirrorTracks snap2) = urisInOrder snap1"
      by (simp add: sn2(3) mirrorRows_uris mp map_filter_append allCurrentUris_def sn1(4)
            map_filter_removed)
    then show ?thesis
      by (simp add: urisInOrder_def sortedTracks_def)
  qed
  from cur el have nc: "tracksToAdd snap2 = [] \<and> tracksToRemove snap2 = []"
    by (simp add: no_change_iff)
  with sync_no_change [OF second] show ?thesis by blast
qed

theorem second_sync_changes_nothing_witness:
  "\<exists>s1 s3. syncMirrorPlaylist exampleApi (startState specExample) = Some (Inr (), s1)
         \<and> writes s1 = [CRemove ''mir'' [''A''], CAdd ''mir'' [''C''] None]
         \<and> syncMirrorPlaylist exampleApi s1 = Some (Inr (), s3)
         \<and> writes s3 = writes s1"
proof -
  note T = second_sync_changes_nothing
    [of "''src''" "''mir''" _ _ "\<lambda>t. t - 31536000000" "\<lambda>t. t - 432000000", folded exampleApi_def]
  let ?s1 = "snd (the (syncMirrorPlaylist exampleApi (startState specExample)))"
  let ?F = "fetchPhase exampleApi (consoleLog LogStarting ?s1)"
  let ?srcPl = "[\<lparr>added_at = 965440000000, track = Some ''A''\<rparr>,
                 \<lparr>added_at = 999136000000, track = Some ''B''\<rparr>,
                 \<lparr>added_at = 999827200000, track = Some ''C''\<rparr>]"
  have "map_option fst (syncMirrorPlaylist exampleApi (startState specExample)) = Some (Inr ())"
    by code_simp
  then have ok1: "syncMirrorPlaylist exampleApi (startState specExample) = Some (Inr (), ?s1)"
    by (cases "syncMirrorPlaylist exampleApi (startState specExample)") auto
  have w1: "writes ?s1 = [CRemove ''mir'' [''A''], CAdd ''mir'' [''C''] None]"
    by code_simp
  have "map_option (isl \<circ> fst) ?F = Some False" by code_simp
  then have f2: "?F = Some (Inr (projr (fst (the ?F))), snd (the ?F))"
    by (cases ?F) (auto simp: isl_def)
  have ids: "''src'' \<noteq> ''mir''" by simp
  have frozen: "\<forall>k. sp_clock (world (startState specExample)) k = 1000000000000"
    by (simp add: startState_def specExample_def)
  have src: "sp_playlists (world (startState specExample)) ''src'' = Some ?srcPl"
    by (simp add: startState_def specExample_def)
  have uris: "\<forall>row \<in> set ?srcPl. track row \<noteq> Some []" by simp
  from T [OF ids frozen ok1 f2 src uris]
  obtain s3 where "syncMirrorPlaylist exampleApi ?s1 = Some (Inr (), s3)" "writes s3 = writes ?s1"
    by blast
  with ok1 w1 show ?thesis
    by (intro exI [of _ ?s1] exI [of _ s3] conjI)
qed

subsection \<open>What a call returns and prints\<close>

lemma removeLoop_console: "console (snd (removeLoop A pid tracks i s)) = console s"
proof (induction A pid tracks i s rule: removeLoop.induct)
  case (1 A pid tracks i s)
  show ?case
  proof (cases "i < length tracks")
    case False
    then show ?thesis by (subst removeLoop.simps) simp
  next
    case True
    let ?c = "slice i (i + 100) tracks"
    obtain r1 s1 where q: "request (CRemove pid ?c) (removeTracksFromPlaylist A pid ?c) s = (r1, s1)"
      by (cases "request (CRemove pid ?c) (removeTracksFromPlaylist A pid ?c) s")
    then have c1: "console s1 = console s"
      by (auto simp: request_def split: prod.splits)
    show ?thesis
    proof (cases r1)
      case (Inl e)
      with True q c1 show ?thesis by (subst removeLoop.simps) (simp add: Let_def)
    next
      case (Inr u)
      from "1.IH" [OF True refl q [symmetric] Inr] True q Inr c1 show ?thesis
        by (subst removeLoop.simps) (simp add: Let_def)
    qed
  qed
qed

lemma addLoop_console: "console (snd (addLoop A pid uris pos i s)) = console s"
proof (induction A pid uris pos i s rule: addLoop.induct)
  case (1 A pid uris pos i s)
  show ?case
  proof (cases "i < length uris")
    case False
    then show ?thesis by (subst addLoop.simps) simp
  next
    case True
    let ?c = "slice i (i + 100) uris"
    let ?p = "case pos of None \<Rightarrow> None | Some p \<Rightarrow> Some (p + i)"
    obtain r1 s1 where q: "request (CAdd pid ?c ?p) (addTracksToPlaylist A pid ?c ?p) s = (r1, s1)"
      by (cases "request (CAdd pid ?c ?p) (addTracksToPlaylist A pid ?c ?p) s")
    then have c1: "console s1 = console s"
      by (auto simp: request_def split: prod.splits)
    show ?thesis
    proof (cases r1)
      case (Inl e)
      with True q c1 show ?thesis by (subst addLoop.simps) (simp add: Let_def)
    next
      case (Inr u)
      from "1.IH" [OF True refl refl q [symmetric] Inr] True q Inr c1 show ?thesis
        by (subst addLoop.simps) (simp add: Let_def)
    qed
  qed
qed

lemma withinLastYear_console:
  "console (snd (withinLastYear A src s))
     = console s @ [LogFoundSource (length src), LogWithinLastYear (length (fst (withinLastYear A src s)))]"
  by (simp add: withinLastYear_def Let_def consoleLog_def split: prod.splits)

lemma lockedUris_console:
  "console (snd (lockedUris A played s))
     = console s @ [LogFoundRecentlyPlayed (length played), LogInLockPeriod (card (fst (lockedUris A played s)))]"
  by (simp add: lockedUris_def Let_def consoleLog_def split: prod.splits)

lemma prints_refl [simp]: "prints s s []"
  by (simp add: prints_def)

lemma prints_trans: "prints s s1 a \<Longrightarrow> prints s1 s2 b \<Longrightarrow> prints s s2 (a @ b)"
  by (auto simp: prints_def)

lemma prints_client: "prints s s1 a \<Longrightarrow> clientLine m \<Longrightarrow> prints s (consoleLog m s1) a"
  by (auto simp: prints_def consoleLog_def)

lemma prints_own: "prints s s1 a \<Longrightarrow> \<not> clientLine m \<Longrightarrow> prints s (consoleLog m s1) (a @ [m])"
  by (auto simp: prints_def consoleLog_def)

lemma prints_console: "prints s s1 a \<Longrightarrow> console s2 = console s1 \<Longrightarrow> prints s s2 a"
  by (simp add: prints_def)

lemma request_console: "request c f s = (r, s') \<Longrightarrow> console s' = console s"
  by (auto simp: request_def split: prod.splits)

lemma prints_ensureAccessToken:
  assumes "ensureAccessToken A s = (r, s')"
  shows "prints s s' []"
proof -
  obtain ms w1 where d: "dateNow A (world s) = (ms, w1)" by (cases "dateNow A (world s)")
  obtain r2 w2 where f: "refreshAccessToken A w1 = (r2, w2)" by (cases "refreshAccessToken A w1")
  from assms show ?thesis
    by (auto simp: ensureAccessToken_def d f request_def Let_def prints_def consoleLog_def
          split: if_splits sum.splits)
qed

lemma prints_playedLoop:
  "prints s (snd (playedLoop A b m n tracks s)) []"
proof (induction A b m n tracks s rule: playedLoop.induct)
  case (1 A b m n tracks s)
  show ?case
  proof (cases "m \<and> length tracks < 100 \<and> n < 3")
    case False
    then show ?thesis by simp
  next
    case True
    let ?s1 = "consoleLog (LogMakingRequest (Suc n)) s"
    obtain r s2 where q: "request (CRecentlyPlayed 50 (beforeOption b))
        (getMyRecentlyPlayedTracks A 50 (beforeOption b)) ?s1 = (r, s2)"
      by (cases "request (CRecentlyPlayed 50 (beforeOption b))
        (getMyRecentlyPlayedTracks A 50 (beforeOption b)) ?s1")
    have "prints s ?s1 []" by (rule prints_client) simp_all
    then have s2: "prints s s2 []"
      by (rule prints_console) (rule request_console [OF q])
    show ?thesis
    proof (cases r)
      case (Inl e)
      with True q s2 show ?thesis
        by (subst playedLoop.simps) (simp add: Let_def)
    next
      case (Inr items)
      note IH = "1.IH" [OF True refl refl q [symmetric] Inr]
      show ?thesis
      proof (cases "length items = 0")
        case z: True
        from prints_trans [OF s2 IH(1) [OF z]]
        have "prints s (snd (playedLoop A b False (Suc n) tracks s2)) []" by simp
        with True q Inr z show ?thesis
          by (subst playedLoop.simps) (simp add: Let_def)
      next
        case nz: False
        let ?t = "tracks @ playedTracksOf items"
        let ?s3 = "consoleLog (LogRetrievedSoFar (length ?t)) s2"
        have s3: "prints s ?s3 []" using s2 by (rule prints_client) simp
        show ?thesis
        proof (cases "length items > 0 \<and> length ?t < 100")
          case c: True
          from prints_trans [OF s3 IH(2) [OF nz refl refl c]]
          have "prints s (snd (playedLoop A (played_at (last items)) m (Suc n) ?t ?s3)) []" by simp
          with True q Inr nz c show ?thesis
            by (subst playedLoop.simps) (simp add: Let_def)
        next
          case c: False
          from prints_trans [OF s3 IH(3) [OF nz refl refl c]]
          have "prints s (snd (playedLoop A b False (Suc n) ?t ?s3)) []" by simp
          with True q Inr nz c show ?thesis
            by (subst playedLoop.simps) (simp add: Let_def)
        qed
      qed
    qed
  qed
qed

lemma prints_getRecentlyPlayedTracks:
  "prints s (snd (getRecentlyPlayedTracks A s)) []"
proof -
  obtain r s1 where t: "ensureAccessToken A s = (r, s1)" by (cases "ensureAccessToken A s")
  have 1: "prints s s1 []" by (rule prints_ensureAccessToken [OF t])
  obtain r2 s2 where l: "playedLoop A None True 0 [] s1 = (r2, s2)"
    by (cases "playedLoop A None True 0 [] s1")
  from prints_playedLoop [of s1 A None True 0 "[]"] l have "prints s1 s2 []" by simp
  with 1 have 2: "prints s s2 []" using prints_trans by fastforce
  then have "prints s (consoleLog (ErrRetrievingRecentlyPlayed e) s2) []" for e
    by (rule prints_client) simp
  moreover from 2 have "prints s (consoleLog (LogRetrievedUnique k) s2) []" for k
    by (rule prints_client) simp
  ultimately show ?thesis using 1 t l
    by (auto simp: getRecentlyPlayedTracks_def Let_def split: sum.splits)
qed

lemma fetchAllPages_console:
  assumes some: "fetchAllPages A pid push offset tracks s = Some (r, s')"
  shows "console s' = console s"
proof -
  have "console (snd (r, s')) = console s"
    apply (rule fetchAllPages.raw_induct
      [where P = "\<lambda>A pid push offset tracks s y. console (snd y) = console s", OF _ some])
    subgoal premises prems for f A pid push offset tracks s y
    proof -
      obtain r1 s1 where q: "request (CGetTracks pid offset 100) (getPlaylistTracks A pid offset 100) s = (r1, s1)"
        by (cases "request (CGetTracks pid offset 100) (getPlaylistTracks A pid offset 100) s")
      note 1 = request_console [OF q]
      show "console (snd y) = console s"
      proof (cases r1)
        case (Inl e)
        with prems(2) q 1 show ?thesis by auto
      next
        case (Inr items)
        show ?thesis
        proof (cases "length items = 100")
          case True
          with prems(2) q Inr have "f A pid push (offset + 100) (tracks @ push offset items) s1 = Some y"
            by simp
          from prems(1) [OF this] 1 show ?thesis by simp
        next
          case False
          with prems(2) q Inr 1 show ?thesis by auto
        qed
      qed
    qed
    done
  then show ?thesis by simp
qed

lemma prints_getSourcePlaylistTracks:
  assumes "getSourcePlaylistTracks A s = Some (r, s')"
  shows "prints s s' []"
proof -
  obtain r1 s1 where t: "ensureAccessToken A s = (r1, s1)" by (cases "ensureAccessToken A s")
  have 1: "prints s s1 []" by (rule prints_ensureAccessToken [OF t])
  from assms t 1 show ?thesis
    by (auto simp: getSourcePlaylistTracks_def split: sum.splits
          intro: prints_console [OF 1 fetchAllPages_console])
qed

lemma prints_getMirrorPlaylistTracks:
  assumes "getMirrorPlaylistTracks A s = Some (r, s')"
  shows "prints s s' []"
proof -
  obtain r1 s1 where t: "ensureAccessToken A s = (r1, s1)" by (cases "ensureAccessToken A s")
  have 1: "prints s s1 []" by (rule prints_ensureAccessToken [OF t])
  from assms t 1 show ?thesis
    by (auto simp: getMirrorPlaylistTracks_def split: sum.splits
          intro: prints_console [OF 1 fetchAllPages_console])
qed

lemma prints_removeTracksFromMirrorPlaylist:
  assumes a: "removeTracksFromMirrorPlaylist A uris s = (r, s')"
  shows "prints s s' []"
proof -
  obtain r1 s1 where t: "ensureAccessToken A s = (r1, s1)" by (cases "ensureAccessToken A s")
  have 1: "prints s s1 []" by (rule prints_ensureAccessToken [OF t])
  have "prints s s' []" if "removeLoop A pid uris 0 s1 = (r, s')" for pid
    using removeLoop_console [of A pid uris 0 s1] that 1 by (auto intro: prints_console)
  with a t 1 show ?thesis
    by (auto simp: removeTracksFromMirrorPlaylist_def split: if_splits sum.splits)
qed

lemma prints_addTracksToMirrorPlaylist:
  assumes a: "addTracksToMirrorPlaylist A uris pos s = (r, s')"
  shows "prints s s' []"
proof -
  obtain r1 s1 where t: "ensureAccessToken A s = (r1, s1)" by (cases "ensureAccessToken A s")
  have 1: "prints s s1 []" by (rule prints_ensureAccessToken [OF t])
  have "prints s s' []" if "addLoop A pid uris pos 0 s1 = (r, s')" for pid
    using addLoop_console [of A pid uris pos 0 s1] that 1 by (auto intro: prints_console)
  with a t 1 show ?thesis
    by (auto simp: addTracksToMirrorPlaylist_def split: if_splits sum.splits)
qed

lemma prints_addChunks:
  "i = 100 * k \<Longrightarrow> addChunks A uris i s = (Inr (), s')
   \<Longrightarrow> prints s s' (map (\<lambda>j. LogAdded (min (100 * j + 100) (length uris)) (length uris))
                        [k..<(length uris + 99) div 100])"
proof (induction A uris i s arbitrary: k s' rule: addChunks.induct)
  case (1 A uris i s)
  let ?n = "length uris"
  let ?f = "\<lambda>j. LogAdded (min (100 * j + 100) ?n) ?n"
  show ?case
  proof (cases "i < length uris")
    case False
    with "1.prems"(1) have "(?n + 99) div 100 \<le> k" by simp
    then have e: "map ?f [k..<(?n + 99) div 100] = []" by simp
    from "1.prems"(2) False have "s' = s" by (subst (asm) addChunks.simps) simp
    then show ?thesis unfolding e by simp
  next
    case True
    with "1.prems"(1) have k: "k < (?n + 99) div 100" by simp
    let ?c = "slice i (i + 100) uris"
    obtain r1 s1 where q: "addTracksToMirrorPlaylist A ?c None s = (r1, s1)"
      by (cases "addTracksToMirrorPlaylist A ?c None s")
    note p1 = prints_addTracksToMirrorPlaylist [OF q]
    from "1.prems"(2) True q obtain u where Inr: "r1 = Inr u"
      by (subst (asm) addChunks.simps) (auto simp: Let_def split: sum.splits)
    let ?s2 = "if i mod 100 = 0 \<or> i + 100 \<ge> length uris
               then consoleLog (LogAdded (min (i + 100) (length uris)) (length uris)) s1 else s1"
    from "1.prems"(2) True q Inr have rest: "addChunks A uris (i + 100) ?s2 = (Inr (), s')"
      by (subst (asm) addChunks.simps) (simp add: Let_def)
    have i': "i + 100 = 100 * Suc k" using "1.prems"(1) by simp
    from "1.IH" [OF True refl q [symmetric] Inr refl i' rest]
    have p3: "prints ?s2 s' (map ?f [Suc k..<(?n + 99) div 100])" .
    have s2: "?s2 = consoleLog (?f k) s1" using "1.prems"(1) by simp
    have p2: "prints s ?s2 ([] @ [?f k])"
      unfolding s2 by (rule prints_own [OF p1]) simp
    from prints_trans [OF p2 p3] show ?thesis
      by (simp add: upt_conv_Cons [OF k])
  qed
qed

lemma prints_rebuild:
  assumes "rebuild A snap s = (Inr (), s')"
  shows "prints s s'
           ([LogChangesDetected] @ (if mirrorTracks snap = [] then [] else [LogRemovingAll])
            @ [LogAddingNewestFirst]
            @ map (\<lambda>j. LogAdded (min (100 * j + 100) (length (eligibleTracks snap)))
                          (length (eligibleTracks snap)))
                [0..<(length (eligibleTracks snap) + 99) div 100]
            @ [LogPlaylistUpdated]
            @ (if card (recentlyPlayedUris snap) > 0
               then [LogExcluded (card (recentlyPlayedUris snap))] else []))"
proof -
  let ?n = "length (eligibleTracks snap)"
  let ?s1 = "consoleLog LogChangesDetected s"
  let ?rm = "if length (allCurrentUris snap) > 0
             then removeTracksFromMirrorPlaylist A (allCurrentUris snap) (consoleLog LogRemovingAll ?s1)
             else (Inr (), ?s1)"
  obtain r2 s2 where rm: "?rm = (r2, s2)" by (cases ?rm)
  have p1: "prints s ?s1 ([] @ [LogChangesDetected])" by (rule prints_own) simp_all
  have p2: "prints ?s1 s2 (if mirrorTracks snap = [] then [] else [LogRemovingAll])"
  proof (cases "length (allCurrentUris snap) > 0")
    case True
    with rm have q: "removeTracksFromMirrorPlaylist A (allCurrentUris snap) (consoleLog LogRemovingAll ?s1) = (r2, s2)"
      by simp
    have "prints ?s1 (consoleLog LogRemovingAll ?s1) ([] @ [LogRemovingAll])"
      by (rule prints_own) simp_all
    from prints_trans [OF this prints_removeTracksFromMirrorPlaylist [OF q]] True
    show ?thesis by (simp add: allCurrentUris_def)
  next
    case False
    with rm show ?thesis by (auto simp: allCurrentUris_def)
  qed
  let ?s2 = "consoleLog LogAddingNewestFirst s2"
  have p3: "prints s2 ?s2 ([] @ [LogAddingNewestFirst])" by (rule prints_own) simp_all
  obtain r3 s3 where ad: "addChunks A (urisInOrder snap) 0 ?s2 = (r3, s3)"
    by (cases "addChunks A (urisInOrder snap) 0 ?s2")
  from assms rm ad have r3: "r3 = Inr ()"
    by (auto simp: rebuild_def Let_def split: sum.splits if_splits)
  have ln: "length (urisInOrder snap) = ?n"
    by (simp add: urisInOrder_def sortedTracks_def)
  from prints_addChunks [of 0 0 A "urisInOrder snap" ?s2 s3] ad r3
  have p4: "prints ?s2 s3 (map (\<lambda>j. LogAdded (min (100 * j + 100) ?n) ?n) [0..<(?n + 99) div 100])"
    by (simp add: ln)
  let ?s4 = "consoleLog LogPlaylistUpdated s3"
  have p5: "prints s3 ?s4 ([] @ [LogPlaylistUpdated])" by (rule prints_own) simp_all
  let ?s5 = "if card (recentlyPlayedUris snap) > 0
             then consoleLog (LogExcluded (card (recentlyPlayedUris snap))) ?s4 else ?s4"
  have p6: "prints ?s4 ?s5 (if card (recentlyPlayedUris snap) > 0
               then [LogExcluded (card (recentlyPlayedUris snap))] else [])"
    using prints_own [of ?s4 ?s4 "[]" "LogExcluded (card (recentlyPlayedUris snap))"] by simp
  from assms rm ad r3 have s': "s' = ?s5"
    by (auto simp: rebuild_def Let_def split: sum.splits if_splits)
  from prints_trans [OF p1 prints_trans [OF p2 prints_trans [OF p3 prints_trans [OF p4 prints_trans [OF p5 p6]]]]]
  show ?thesis unfolding s' by simp
qed

lemma prints_applyPhase:
  assumes "applyPhase A snap s = (Inr (), s')"
  shows "prints s s'
           (LogEligible (length (eligibleTracks snap))
            # (if tracksToAdd snap = [] \<and> tracksToRemove snap = [] then [LogNoChanges]
               else [LogChangesDetected] @ (if mirrorTracks snap = [] then [] else [LogRemovingAll])
                 @ [LogAddingNewestFirst]
                 @ map (\<lambda>j. LogAdded (min (100 * j + 100) (length (eligibleTracks snap)))
                               (length (eligibleTracks snap)))
                     [0..<(length (eligibleTracks snap) + 99) div 100]
                 @ [LogPlaylistUpdated]
                 @ (if card (recentlyPlayedUris snap) > 0
                    then [LogExcluded (card (recentlyPlayedUris snap))] else [])))"
proof -
  let ?s1 = "consoleLog (LogEligible (length (eligibleTracks snap))) s"
  have p1: "prints s ?s1 ([] @ [LogEligible (length (eligibleTracks snap))])"
    by (rule prints_own) simp_all
  show ?thesis
  proof (cases "tracksToAdd snap = [] \<and> tracksToRemove snap = []")
    case True
    with assms have s': "s' = consoleLog LogNoChanges ?s1"
      by (auto simp: applyPhase_def Let_def)
    have "prints ?s1 (consoleLog LogNoChanges ?s1) ([] @ [LogNoChanges])"
      by (rule prints_own) simp_all
    from prints_trans [OF p1 this] True show ?thesis unfolding s' by simp
  next
    case False
    with assms have "rebuild A snap ?s1 = (Inr (), s')"
      by (auto simp: applyPhase_def Let_def)
    from prints_trans [OF p1 prints_rebuild [OF this]] show ?thesis
      by (simp only: if_not_P [OF False]) simp
  qed
qed

lemma prints_fetchPhase:
  assumes f: "fetchPhase A s = Some (Inr snap, s1)"
  shows "prints s s1
           [LogFoundSource (length (sourceTracks snap)),
            LogWithinLastYear (length (tracksWithinLastYear snap)),
            LogFoundRecentlyPlayed (length (recentlyPlayedTracks snap)),
            LogInLockPeriod (card (recentlyPlayedUris snap)),
            LogFoundMirror (length (mirrorTracks snap))]"
proof -
  from f obtain src sa played sc mirror se where
    g: "getSourcePlaylistTracks A s = Some (Inr src, sa)"
    and p: "getRecentlyPlayedTracks A (snd (withinLastYear A src sa)) = (Inr played, sc)"
    and m: "getMirrorPlaylistTracks A (snd (lockedUris A played sc)) = Some (Inr mirror, se)"
    and snap: "snap = \<lparr>sourceTracks = src, tracksWithinLastYear = fst (withinLastYear A src sa),
                 recentlyPlayedTracks = played, recentlyPlayedUris = fst (lockedUris A played sc),
                 mirrorTracks = mirror\<rparr>"
    and s1: "s1 = consoleLog (LogFoundMirror (length mirror)) se"
    unfolding fetchPhase_Inr by blast
  let ?sb = "snd (withinLastYear A src sa)"
  let ?sd = "snd (lockedUris A played sc)"
  note p1 = prints_getSourcePlaylistTracks [OF g]
  have p2: "prints sa ?sb [LogFoundSource (length src), LogWithinLastYear (length (fst (withinLastYear A src sa)))]"
    unfolding prints_def withinLastYear_console by simp
  from prints_getRecentlyPlayedTracks [of ?sb A] p have p3: "prints ?sb sc []" by simp
  have p4: "prints sc ?sd [LogFoundRecentlyPlayed (length played), LogInLockPeriod (card (fst (lockedUris A played sc)))]"
    unfolding prints_def lockedUris_console by simp
  note p5 = prints_getMirrorPlaylistTracks [OF m]
  have p6: "prints se s1 ([] @ [LogFoundMirror (length mirror)])"
    unfolding s1 by (rule prints_own) simp_all
  from prints_trans [OF p1 prints_trans [OF p2 prints_trans [OF p3 prints_trans [OF p4 prints_trans [OF p5 p6]]]]]
  show ?thesis unfolding snap by simp
qed

lemma syncMirrorPlaylist_Inl:
  assumes "syncMirrorPlaylist A s = Some (Inl e, s')"
  shows "\<exists>s2. s' = consoleLog (ErrSyncing e) s2
           \<and> (fetchPhase A (consoleLog LogStarting s) = Some (Inl e, s2)
              \<or> (\<exists>snap s1. fetchPhase A (consoleLog LogStarting s) = Some (Inr snap, s1)
                    \<and> applyPhase A snap s1 = (Inl e, s2)))"
proof (cases "fetchPhase A (consoleLog LogStarting s)")
  case None
  with assms show ?thesis by (simp add: syncMirrorPlaylist_def andThen_def)
next
  case (Some y)
  obtain r s1 where y: "y = (r, s1)" by (cases y)
  show ?thesis
  proof (cases r)
    case (Inl e')
    with assms Some y show ?thesis by (auto simp: syncMirrorPlaylist_def andThen_def)
  next
    case (Inr snap)
    with Some y have f: "fetchPhase A (consoleLog LogStarting s) = Some (Inr snap, s1)" by simp
    from assms show ?thesis
      unfolding syncMirrorPlaylist_after_fetch [OF f] f
      by (cases "applyPhase A snap s1") (auto split: sum.splits)
  qed
qed

text \<open>
  C4, as stated, fails: \<open>syncMirrorPlaylist\<close> resolves with no value. Three successful calls
  return the same (empty) value although the first fetched three source tracks, removed one
  and added one, the second fetched two and added two, and the third rebuilt nothing.
\<close>

theorem sync_result_carries_no_counts:
  "map_option fst (syncMirrorPlaylist exampleApi (startState specExample)) = Some (Inr ())
   \<and> map_option fst (syncMirrorPlaylist exampleApi (startState duplicated)) = Some (Inr ())
   \<and> map_option fst (syncMirrorPlaylist exampleApi (startState settled)) = Some (Inr ())
   \<and> map_option (writes \<circ> snd) (syncMirrorPlaylist exampleApi (startState specExample))
       = Some [CRemove ''mir'' [''A''], CAdd ''mir'' [''C''] None]
   \<and> map_option (writes \<circ> snd) (syncMirrorPlaylist exampleApi (startState duplicated))
       = Some [CAdd ''mir'' [''C'', ''C''] None]
   \<and> map_option (writes \<circ> snd) (syncMirrorPlaylist exampleApi (startState settled)) = Some []"
  by code_simp

text \<open>
  C4, amended. \<open>syncMirrorPlaylist\<close> resolves with no value. What a successful call reports
  it writes to the console. Its own lines, those of the client functions set aside, are
  exactly these, in this order: the start line; the number of source tracks fetched and of
  those added within the last year; the number of recently played tracks fetched and of URIs
  in the lock period; the number of mirror tracks fetched; the number of eligible tracks;
  then either "no changes needed", or "changes detected", "removing all" when the mirror was
  not empty, "adding", one progress line "added \<open>min (100 (j + 1), n)\<close> of \<open>n\<close>" for each
  chunk \<open>j\<close> of 100 of the \<open>n\<close> eligible tracks, "playlist updated" and, when some URI is in
  the lock period, the number of URIs excluded; and the line of completion. No count of
  removed tracks is among them. A failing call raises the error of the read phase or of the
  write phase that failed, after logging it as its last line.
\<close>

theorem sync_reports_on_the_console:
  "(syncMirrorPlaylist A s = Some (Inr (), s')
      \<and> fetchPhase A (consoleLog LogStarting s) = Some (Inr snap, s1)
    \<longrightarrow> (\<exists>xs. console s' = console s @ xs
            \<and> filter (\<lambda>m. \<not> clientLine m) xs
                = [LogStarting,
                   LogFoundSource (length (sourceTracks snap)),
                   LogWithinLastYear (length (tracksWithinLastYear snap)),
                   LogFoundRecentlyPlayed (length (recentlyPlayedTracks snap)),
                   LogInLockPeriod (card (recentlyPlayedUris snap)),
                   LogFoundMirror (length (mirrorTracks snap)),
                   LogEligible (length (eligibleTracks snap))]
                  @ (if tracksToAdd snap = [] \<and> tracksToRemove snap = [] then [LogNoChanges]
                     else [LogChangesDetected]
                       @ (if mirrorTracks snap = [] then [] else [LogRemovingAll])
                       @ [LogAddingNewestFirst]
                       @ map (\<lambda>j. LogAdded (min (100 * j + 100) (length (eligibleTracks snap)))
                                     (length (eligibleTracks snap)))
                           [0..<(length (eligibleTracks snap) + 99) div 100]
                       @ [LogPlaylistUpdated]
                       @ (if card (recentlyPlayedUris snap) > 0
                          then [LogExcluded (card (recentlyPlayedUris snap))] else []))
                  @ [LogSyncCompleted]))
   \<and> (syncMirrorPlaylist A s = Some (Inl e, s')
    \<longrightarrow> (\<exists>s2. s' = consoleLog (ErrSyncing e) s2
            \<and> (fetchPhase A (consoleLog LogStarting s) = Some (Inl e, s2)
               \<or> (\<exists>snap' s1'. fetchPhase A (consoleLog LogStarting s) = Some (Inr snap', s1')
                      \<and> applyPhase A snap' s1' = (Inl e, s2)))))"
proof (intro conjI impI)
  assume h: "syncMirrorPlaylist A s = Some (Inr (), s')
      \<and> fetchPhase A (consoleLog LogStarting s) = Some (Inr snap, s1)"
  then have ok: "syncMirrorPlaylist A s = Some (Inr (), s')"
    and fetched: "fetchPhase A (consoleLog LogStarting s) = Some (Inr snap, s1)" by simp_all
  obtain r2 s2 where ap: "applyPhase A snap s1 = (r2, s2)" by (cases "applyPhase A snap s1")
  with ok have r2: "r2 = Inr ()" and s': "s' = consoleLog LogSyncCompleted s2"
    by (auto simp: syncMirrorPlaylist_after_fetch [OF fetched] split: sum.splits)
  have p0: "prints s (consoleLog LogStarting s) ([] @ [LogStarting])"
    by (rule prints_own) simp_all
  note p1 = prints_fetchPhase [OF fetched]
  note p2 = prints_applyPhase [OF ap [unfolded r2]]
  have p3: "prints s2 s' ([] @ [LogSyncCompleted])"
    unfolding s' by (rule prints_own) simp_all
  from prints_trans [OF p0 prints_trans [OF p1 prints_trans [OF p2 p3]]]
  show "\<exists>xs. console s' = console s @ xs
            \<and> filter (\<lambda>m. \<not> clientLine m) xs
                = [LogStarting,
                   LogFoundSource (length (sourceTracks snap)),
                   LogWithinLastYear (length (tracksWithinLastYear snap)),
                   LogFoundRecentlyPlayed (length (recentlyPlayedTracks snap)),
                   LogInLockPeriod (card (recentlyPlayedUris snap)),
                   LogFoundMirror (length (mirrorTracks snap)),
                   LogEligible (length (eligibleTracks snap))]
                  @ (if tracksToAdd snap = [] \<and> tracksToRemove snap = [] then [LogNoChanges]
                     else [LogChangesDetected]
                       @ (if mirrorTracks snap = [] then [] else [LogRemovingAll])
                       @ [LogAddingNewestFirst]
                       @ map (\<lambda>j. LogAdded (min (100 * j + 100) (length (eligibleTracks snap)))
                                     (length (eligibleTracks snap)))
                           [0..<(length (eligibleTracks snap) + 99) div 100]
                       @ [LogPlaylistUpdated]
                       @ (if card (recentlyPlayedUris snap) > 0
                          then [LogExcluded (card (recentlyPlayedUris snap))] else []))
                  @ [LogSyncCompleted]"
    unfolding prints_def by simp
next
  assume "syncMirrorPlaylist A s = Some (Inl e, s')"
  then show "\<exists>s2. s' = consoleLog (ErrSyncing e) s2
            \<and> (fetchPhase A (consoleLog LogStarting s) = Some (Inl e, s2)
               \<or> (\<exists>snap' s1'. fetchPhase A (consoleLog LogStarting s) = Some (Inr snap', s1')
                      \<and> applyPhase A snap' s1' = (Inl e, s2)))"
    by (rule syncMirrorPlaylist_Inl)
qed

theorem sync_reports_on_the_console_witness:
  "(\<exists>s'. syncMirrorPlaylist exampleApi (startState specExample) = Some (Inr (), s')
        \<and> filter (\<lambda>m. \<not> clientLine m) (console s')
            = [LogStarting, LogFoundSource 3, LogWithinLastYear 2, LogFoundRecentlyPlayed 1,
               LogInLockPeriod 1, LogFoundMirror 1, LogEligible 1, LogChangesDetected,
               LogRemovingAll, LogAddingNewestFirst, LogAdded 1 1, LogPlaylistUpdated,
               LogExcluded 1, LogSyncCompleted])
   \<and> (\<exists>s'. syncMirrorPlaylist exampleApi (startState (failingAt 1 specExample))
               = Some (Inl (ApiError 1), s')
        \<and> last (console s') = ErrSyncing (ApiError 1))"
proof -
  let ?F = "fetchPhase exampleApi (consoleLog LogStarting (startState specExample))"
  let ?snap = "projr (fst (the ?F))"
  have "map_option (isl \<circ> fst) ?F = Some False" by code_simp
  then have f: "?F = Some (Inr ?snap, snd (the ?F))"
    by (cases ?F) (auto simp: isl_def)
  have "map_option fst (syncMirrorPlaylist exampleApi (startState specExample)) = Some (Inr ())"
    by code_simp
  then obtain t where ok: "syncMirrorPlaylist exampleApi (startState specExample) = Some (Inr (), t)"
    by (cases "syncMirrorPlaylist exampleApi (startState specExample)") auto
  have "map_option fst (syncMirrorPlaylist exampleApi (startState (failingAt 1 specExample)))
          = Some (Inl (ApiError 1))"
    by code_simp
  then obtain t' where bad: "syncMirrorPlaylist exampleApi (startState (failingAt 1 specExample))
          = Some (Inl (ApiError 1), t')"
    by (cases "syncMirrorPlaylist exampleApi (startState (failingAt 1 specExample))") auto
  have n: "length (sourceTracks ?snap) = 3" "length (tracksWithinLastYear ?snap) = 2"
    "length (recentlyPlayedTracks ?snap) = 1" "card (recentlyPlayedUris ?snap) = 1"
    "length (mirrorTracks ?snap) = 1" "length (eligibleTracks ?snap) = 1"
    by code_simp+
  have ch: "\<not> (tracksToAdd ?snap = [] \<and> tracksToRemove ?snap = [])" by code_simp
  have mt: "mirrorTracks ?snap \<noteq> []" using n(5) by auto
  have i: "console (startState specExample) = []" by (simp add: startState_def)
  from sync_reports_on_the_console
    [where A = exampleApi and s = "startState specExample" and s' = t and snap = ?snap
       and ?s1.0 = "snd (the ?F)"]
    ok f
  have "filter (\<lambda>m. \<not> clientLine m) (console t)
            = [LogStarting, LogFoundSource 3, LogWithinLastYear 2, LogFoundRecentlyPlayed 1,
               LogInLockPeriod 1, LogFoundMirror 1, LogEligible 1, LogChangesDetected,
               LogRemovingAll, LogAddingNewestFirst, LogAdded 1 1, LogPlaylistUpdated,
               LogExcluded 1, LogSyncCompleted]"
    unfolding n i if_not_P [OF ch] if_not_P [OF mt] by auto
  with ok have a: "\<exists>s'. syncMirrorPlaylist exampleApi (startState specExample) = Some (Inr (), s')
        \<and> filter (\<lambda>m. \<not> clientLine m) (console s')
            = [LogStarting, LogFoundSource 3, LogWithinLastYear 2, LogFoundRecentlyPlayed 1,
               LogInLockPeriod 1, LogFoundMirror 1, LogEligible 1, LogChangesDetected,
               LogRemovingAll, LogAddingNewestFirst, LogAdded 1 1, LogPlaylistUpdated,
               LogExcluded 1, LogSyncCompleted]"
    by (intro exI [of _ t] conjI)
  from sync_reports_on_the_console
    [where A = exampleApi and s = "startState (failingAt 1 specExample)" and s' = t'
       and e = "ApiError 1"] bad
  have "last (console t') = ErrSyncing (ApiError 1)"
    by (auto simp: consoleLog_def)
  with bad have b: "\<exists>s'. syncMirrorPlaylist exampleApi (startState (failingAt 1 specExample))
               = Some (Inl (ApiError 1), s')
        \<and> last (console s') = ErrSyncing (ApiError 1)"
    by (intro exI [of _ t'] conjI)
  from a b show ?thesis by (rule conjI)
qed

end
